theory Spec2Isabelle
  imports Main "HOL-Library.Word"
begin

unbundle bit_operations_syntax

section \<open>Buffers, digests and errors\<close>

text \<open>
  A Node \<open>Buffer\<close> is a list of bytes. The digest \<open>sha256\<close> comes from Node's
  \<open>crypto\<close> library, not from the repository: every function that hashes takes it as
  its first argument (a function from the hashed bytes to the digest), so a theorem about
  \<open>sha256\<close> holds for every digest function. SHA-256 itself is \<open>SHA256\<close>, defined
  further down.

  A hash object (\<open>createHash('sha256')\<close>) is modelled by the bytes fed to it so far:
  \<open>update\<close> appends, \<open>digest\<close> applies the digest function to what was fed.
\<close>

type_synonym byte = "8 word"
type_synonym buffer = "byte list"
type_synonym digest_fn = "buffer \<Rightarrow> buffer"

datatype error =
    KeyIsNil                            \<comment> \<open>'key is nil'\<close>
  | NoInteriorNode                      \<comment> \<open>'no interior node'\<close>
  | InvalidInteriorNode                 \<comment> \<open>'invalid interior node'\<close>
  | InvalidPrefixInLeafNode             \<comment> \<open>'invalid prefix in leaf node'\<close>
  | InvalidPrefixInEmptyNode            \<comment> \<open>'invalid prefix in empty node'\<close>
  | NoCorrespondingNode                 \<comment> \<open>'no corresponding leaf/empty node with respect to the interior node'\<close>
  | InvalidLatestBlock                  \<comment> \<open>'invalid latest block'\<close>
  | InvalidRoot                         \<comment> \<open>'invalid root'\<close>
  | FirstLinkNotGenesis                 \<comment> \<open>'first link must come from the genesis block'\<close>
  | InvalidForwardLinkSignature string  \<comment> \<open>'invalid forward link signature: ' + err.message\<close>
  | InvalidChainOfForwardLinks          \<comment> \<open>'invalid chain of forward links'\<close>
  | LastLinkNotLatest                   \<comment> \<open>'last forward link does not point to the latest block'\<close>
  | NeedSameNumberOfSigners             \<comment> \<open>'need same number of signers as instructions'\<close>
  | LengthsDoNotMatch                   \<comment> \<open>'length of signers and instructions do not match'\<close>
  | InstructionWithoutType              \<comment> \<open>'instruction without type'\<close>
  | TypeError                           \<comment> \<open>a property read on \<open>undefined\<close>\<close>
  | RangeError                          \<comment> \<open>an integer that does not fit the bytes it is written to\<close>
  | DecodeError                         \<comment> \<open>a protobuf payload that does not decode\<close>
  | RpcError string                     \<comment> \<open>a request the connection rejects\<close>

definition createHash :: buffer where
  "createHash = []"

definition hash_update :: "buffer \<Rightarrow> buffer \<Rightarrow> buffer" where
  "hash_update h bs = h @ bs"

definition hash_digest :: "digest_fn \<Rightarrow> buffer \<Rightarrow> buffer" where
  "hash_digest sha256 h = sha256 h"

text \<open>\<open>forEach\<close> over an array whose callback feeds the hash object.\<close>

definition forEach_update :: "('a \<Rightarrow> buffer \<Rightarrow> buffer) \<Rightarrow> 'a list \<Rightarrow> buffer \<Rightarrow> buffer" where
  "forEach_update f xs h = fold f xs h"

text \<open>
  \<open>buf.writeIntLE(n, 0, 4)\<close> and \<open>buf.writeUInt32LE(n, 0)\<close> on a fresh 4-byte buffer:
  the four little-endian bytes of \<open>n\<close>, or a RangeError when \<open>n\<close> is outside the signed
  (unsigned) 32-bit range. The lengths written are never negative.
\<close>

definition le_bytes :: "nat \<Rightarrow> nat \<Rightarrow> buffer" where
  "le_bytes k n = map (\<lambda>j. word_of_nat (n div 256 ^ j)) [0..<k]"

definition writeIntLE4 :: "nat \<Rightarrow> error + buffer" where
  "writeIntLE4 n = (if n < 2 ^ 31 then Inr (le_bytes 4 n) else Inl RangeError)"

definition writeUInt32LE :: "nat \<Rightarrow> error + buffer" where
  "writeUInt32LE n = (if n < 2 ^ 32 then Inr (le_bytes 4 n) else Inl RangeError)"

section \<open>Inclusion proofs (proof.ts)\<close>

record InteriorNode =
  in_left :: buffer
  in_right :: buffer

record EmptyNode =
  empty_prefix :: "bool list"

record LeafNode =
  leaf_prefix :: "bool list"
  leaf_key :: buffer
  leaf_value :: buffer

record InclusionProof =
  interiors :: "InteriorNode list"
  leaf :: LeafNode
  empty_node :: EmptyNode
  nonce :: buffer

text \<open>
  \<open>hashToBits\<close>: bit \<open>i\<close> of the digest is
  \<open>((hash[i >> 3] << (i % 8)) & (1 << 7)) > 0\<close>, on JavaScript's signed 32-bit integers.
  A digest is far shorter than \<open>2^28\<close> bytes, so the index \<open>i >> 3\<close> is \<open>i div 8\<close>.
\<close>

definition hashToBits :: "digest_fn \<Rightarrow> buffer \<Rightarrow> bool list" where
  "hashToBits sha256 key =
     (let hash = sha256 key in
      map (\<lambda>i. 0 < sint (push_bit (i mod 8) (ucast (hash ! (i div 8)) :: 32 word) AND push_bit 7 1))
          [0..<length hash * 8])"

text \<open>Reading \<open>bits[i]\<close> as a condition: past the end it is \<open>undefined\<close>, which is falsy.\<close>

definition bit_at :: "bool list \<Rightarrow> nat \<Rightarrow> bool" where
  "bit_at bits i = (i < length bits \<and> bits ! i)"

text \<open>
  \<open>x >> 3\<close> converts \<open>x\<close> to a signed 32-bit integer and shifts it arithmetically, so
  from \<open>2^31\<close> on the result is negative.

  \<open>buf[j] |= v\<close> on a \<open>Buffer\<close>: a write outside the buffer is ignored.
\<close>

definition shift_right_3 :: "nat \<Rightarrow> int" where
  "shift_right_3 x = sint (signed_drop_bit 3 (word_of_nat x :: 32 word))"

definition or_assign :: "buffer \<Rightarrow> int \<Rightarrow> byte \<Rightarrow> buffer" where
  "or_assign buf j v = (if 0 \<le> j \<and> nat j < length buf then buf[nat j := (buf ! nat j) OR v] else buf)"

text \<open>
  \<open>boolToBuffer\<close>: a zeroed buffer of \<open>(bits.length + 7) >> 3\<close> bytes in which
  \<open>buf[i >> 3] |= (1 << 7) >> (i % 8)\<close> for every set bit \<open>i\<close>. \<open>Buffer.alloc\<close> throws
  a RangeError on a negative size.
\<close>

definition boolToBuffer :: "bool list \<Rightarrow> error + buffer" where
  "boolToBuffer bits =
     (let size = shift_right_3 (length bits + 7) in
      if size < 0 then Inl RangeError
      else Inr (fold (\<lambda>i buf. if bits ! i
                                then or_assign buf (shift_right_3 i) (drop_bit (i mod 8) (push_bit 7 1))
                                else buf)
                     [0..<length bits]
                     (replicate (nat size) 0)))"

text \<open>\<open>hashInterior(index)\<close>: reading \<open>interiors[index].left\<close> out of range is a TypeError.\<close>

definition hashInterior :: "digest_fn \<Rightarrow> InclusionProof \<Rightarrow> nat \<Rightarrow> error + buffer" where
  "hashInterior sha256 ip index =
     (if index < length (interiors ip)
      then Inr (hash_digest sha256
                  (hash_update (hash_update createHash (in_left (interiors ip ! index)))
                               (in_right (interiors ip ! index))))
      else Inl TypeError)"

definition hashLeaf :: "digest_fn \<Rightarrow> InclusionProof \<Rightarrow> error + buffer" where
  "hashLeaf sha256 ip =
     (let h0 = hash_update createHash [3];
          h1 = hash_update h0 (nonce ip)
      in case boolToBuffer (leaf_prefix (leaf ip)) of
           Inl e \<Rightarrow> Inl e
         | Inr prefix \<Rightarrow>
             let h2 = hash_update h1 prefix
             in (case writeIntLE4 (length (leaf_prefix (leaf ip))) of
                   Inl e \<Rightarrow> Inl e
                 | Inr len \<Rightarrow>
                     Inr (hash_digest sha256
                           (hash_update (hash_update (hash_update h2 len) (leaf_key (leaf ip)))
                                        (leaf_value (leaf ip))))))"

definition hashEmpty :: "digest_fn \<Rightarrow> InclusionProof \<Rightarrow> error + buffer" where
  "hashEmpty sha256 ip =
     (let h0 = hash_update createHash [2];
          h1 = hash_update h0 (nonce ip)
      in case boolToBuffer (empty_prefix (empty_node ip)) of
           Inl e \<Rightarrow> Inl e
         | Inr prefix \<Rightarrow>
             let h2 = hash_update h1 prefix
             in (case writeIntLE4 (length (empty_prefix (empty_node ip))) of
                   Inl e \<Rightarrow> Inl e
                 | Inr len \<Rightarrow> Inr (hash_digest sha256 (hash_update h2 len))))"

text \<open>lodash's \<open>_.difference(xs, ys)\<close>: the elements of \<open>xs\<close> that do not occur in \<open>ys\<close>.\<close>

definition lodash_difference :: "'a list \<Rightarrow> 'a list \<Rightarrow> 'a list" where
  "lodash_difference xs ys = filter (\<lambda>x. x \<notin> set ys) xs"

section \<open>Skipchain blocks, forward links and proofs\<close>

text \<open>
  \<open>SkipBlock\<close>, \<open>ForwardLink\<close>, \<open>Roster\<close> and \<open>DataHeader\<close> live in the skipchain
  library. A block is kept with the fields \<open>verify\<close> reads; what the library computes
  (\<open>computeHash\<close>, \<open>DataHeader.decode(...).trieRoot\<close>, \<open>getServicePublics\<close>,
  \<open>ForwardLink.verify\<close>) is a record of functions passed to \<open>verify\<close>. A roster is of
  type \<open>'r\<close>, a list of service public keys of type \<open>'p\<close>.
\<close>

record 'r SkipBlock =
  sb_hash :: buffer
  sb_data :: buffer
  sb_roster :: 'r
  sb_content :: buffer

record 'r ForwardLink =
  fl_from :: buffer
  fl_to :: buffer
  fl_newRoster :: "'r option"
  fl_signature :: buffer

record ('r, 'p) skipchain_lib =
  computeHash :: "'r SkipBlock \<Rightarrow> buffer"
  decode_trieRoot :: "buffer \<Rightarrow> buffer option"
  getServicePublics :: "'r \<Rightarrow> 'p"
  link_verify :: "'r ForwardLink \<Rightarrow> 'p \<Rightarrow> string option"

record 'r Proof =
  inclusionproof :: InclusionProof
  latest :: "'r SkipBlock"
  links :: "'r ForwardLink list"

text \<open>The getter \<open>Proof.key\<close> is \<open>inclusionproof.key\<close>, the key stored in the leaf.\<close>

definition Proof_key :: "'r Proof \<Rightarrow> buffer" where
  "Proof_key p = leaf_key (leaf (inclusionproof p))"

subsection \<open>\<open>Proof.exists\<close>\<close>

text \<open>
  The \<open>for\<close> loop of \<open>exists\<close>, from index \<open>i\<close> with the expected hash so far. It
  returns the final index and expected hash, or the error thrown on the way.
\<close>

function exists_loop ::
  "digest_fn \<Rightarrow> InclusionProof \<Rightarrow> bool list \<Rightarrow> nat \<Rightarrow> buffer \<Rightarrow> error + (nat \<times> buffer)" where
  "exists_loop sha256 ip bits i expectedHash =
     (if i < length (interiors ip) then
        (case hashInterior sha256 ip i of
           Inl e \<Rightarrow> Inl e
         | Inr h \<Rightarrow>
             if expectedHash \<noteq> h then Inl InvalidInteriorNode
             else exists_loop sha256 ip bits (i + 1)
                    (if bit_at bits i then in_left (interiors ip ! i)
                     else in_right (interiors ip ! i)))
      else Inr (i, expectedHash))"
  by pat_completeness auto
termination
  by (relation "measure (\<lambda>(sha256, ip, bits, i, expectedHash). length (interiors ip) - i)") auto

declare exists_loop.simps [simp del]

definition Proof_exists :: "digest_fn \<Rightarrow> 'r Proof \<Rightarrow> buffer \<Rightarrow> error + bool" where
  "Proof_exists sha256 p key =
     (if length key = 0 then Inl KeyIsNil
      else if length (interiors (inclusionproof p)) = 0 then Inl NoInteriorNode
      else
        let bits = hashToBits sha256 key in
        (case hashInterior sha256 (inclusionproof p) 0 of
          Inl e \<Rightarrow> Inl e
        | Inr expectedHash0 \<Rightarrow>
        (case exists_loop sha256 (inclusionproof p) bits 0 expectedHash0 of
          Inl e \<Rightarrow> Inl e
        | Inr (i, expectedHash) \<Rightarrow>
        (case hashLeaf sha256 (inclusionproof p) of
          Inl e \<Rightarrow> Inl e
        | Inr hl \<Rightarrow>
            if expectedHash = hl then
              (if length (lodash_difference (take i bits) (leaf_prefix (leaf (inclusionproof p)))) \<noteq> 0
               then Inl InvalidPrefixInLeafNode
               else Inr (Proof_key p = key))
            else
              (case hashEmpty sha256 (inclusionproof p) of
                 Inl e \<Rightarrow> Inl e
               | Inr he \<Rightarrow>
                   if expectedHash = he then
                     (if length (lodash_difference (take i bits) (empty_prefix (empty_node (inclusionproof p)))) \<noteq> 0
                      then Inl InvalidPrefixInEmptyNode
                      else Inr False)
                   else Inl NoCorrespondingNode)))))"

subsection \<open>\<open>Proof.verify\<close>\<close>

text \<open>
  The loop of \<open>verify\<close> over \<open>links[1..]\<close>, with the service keys trusted so far and
  the hash of the block reached so far. It returns the last hash reached, or the error
  that \<open>verify\<close> returns for the first link that fails.
\<close>

fun verify_links ::
  "('r, 'p) skipchain_lib \<Rightarrow> 'p \<Rightarrow> buffer \<Rightarrow> 'r ForwardLink list \<Rightarrow> error + buffer" where
  "verify_links lib publics prev [] = Inr prev"
| "verify_links lib publics prev (link # rest) =
     (case link_verify lib link publics of
        Some message \<Rightarrow> Inl (InvalidForwardLinkSignature message)
      | None \<Rightarrow>
          if fl_from link \<noteq> prev then Inl InvalidChainOfForwardLinks
          else verify_links lib
                 (case fl_newRoster link of
                    Some roster \<Rightarrow> getServicePublics lib roster
                  | None \<Rightarrow> publics)
                 (fl_to link) rest)"

text \<open>
  \<open>verify\<close> returns an \<open>Error\<close> or \<open>null\<close>: \<open>Inr (Some e)\<close> or \<open>Inr None\<close>. What it
  throws instead of returning is \<open>Inl\<close>: a payload that does not decode, and the reads
  \<open>interiors[0]\<close> and \<open>links[0]\<close> on an empty array.
\<close>

definition Proof_verify ::
  "('r, 'p) skipchain_lib \<Rightarrow> digest_fn \<Rightarrow> 'r Proof \<Rightarrow> buffer \<Rightarrow> error + error option" where
  "Proof_verify lib sha256 p genesisID =
     (if computeHash lib (latest p) \<noteq> sb_hash (latest p) then Inr (Some InvalidLatestBlock)
      else
        (case decode_trieRoot lib (sb_data (latest p)) of
           None \<Rightarrow> Inl DecodeError
         | Some trieRoot \<Rightarrow>
        (case hashInterior sha256 (inclusionproof p) 0 of
           Inl e \<Rightarrow> Inl e
         | Inr root \<Rightarrow>
             if root \<noteq> trieRoot then Inr (Some InvalidRoot)
             else
               let publics = getServicePublics lib (sb_roster (latest p)) in
               (case links p of
                  [] \<Rightarrow> Inl TypeError
                | link0 # rest \<Rightarrow>
                    let prev = fl_to link0 in
                    if prev \<noteq> genesisID then Inr (Some FirstLinkNotGenesis)
                    else
                      (case verify_links lib publics prev rest of
                         Inl e \<Rightarrow> Inr (Some e)
                       | Inr prev' \<Rightarrow>
                           if prev' \<noteq> sb_hash (latest p) then Inr (Some LastLinkNotLatest)
                           else Inr None)))))"

section \<open>Instructions and client transactions (client-transaction.ts)\<close>

text \<open>
  A JavaScript string is hashed and measured through its UTF-8 encoding only
  (\<open>Buffer.from(s)\<close>, \<open>h.update(s)\<close>), so a string is kept as the characters of that
  encoding and \<open>utf8\<close> gives its bytes. A \<open>Long\<close> is a 64-bit word: \<open>add\<close> wraps,
  \<open>toBytesLE\<close> gives its eight bytes, least significant first. \<open>Long.fromNumber\<close> is
  applied to buffer lengths, which it represents exactly.
\<close>

definition utf8 :: "string \<Rightarrow> buffer" where
  "utf8 s = map (\<lambda>c. word_of_nat (of_char c)) s"

type_synonym Long = "64 word"

definition Long_fromNumber :: "nat \<Rightarrow> Long" where
  "Long_fromNumber n = word_of_nat n"

definition Long_toBytesLE :: "Long \<Rightarrow> buffer" where
  "Long_toBytesLE w = map (\<lambda>j. ucast (drop_bit (8 * j) w)) [0..<8]"

record Argument =
  arg_name :: string
  arg_value :: buffer

record Spawn =
  spawn_contractID :: string
  spawn_args :: "Argument list"

record Invoke =
  invoke_command :: string
  invoke_contractID :: string
  invoke_args :: "Argument list"

record Delete =
  delete_contractID :: string

text \<open>
  \<open>IdentityWrapper\<close> and the identity classes behind \<open>IIdentity\<close> are in the darc
  library. A wrapper is kept as what \<open>toBytes()\<close> returns, an identity as what
  \<open>toString()\<close> and \<open>toWrapper()\<close> return, and a signer as an identity with its
  \<open>sign\<close> method.
\<close>

record IdentityWrapper =
  iw_toBytes :: buffer

record Identity =
  id_toString :: string
  id_toWrapper :: IdentityWrapper

record Signer =
  signer_identity :: Identity
  signer_sign :: "buffer \<Rightarrow> buffer"

record Instruction =
  instr_spawn :: "Spawn option"
  instr_invoke :: "Invoke option"
  instr_delete :: "Delete option"
  instanceID :: buffer
  signerCounter :: "Long list"
  signerIdentities :: "IdentityWrapper list"
  signatures :: "buffer list"

record ClientTransaction =
  instructions :: "Instruction list"

text \<open>The getter \<open>Instruction.type\<close>.\<close>

definition Instruction_type :: "Instruction \<Rightarrow> error + nat" where
  "Instruction_type instr =
     (if instr_spawn instr \<noteq> None then Inr 0
      else if instr_invoke instr \<noteq> None then Inr 1
      else if instr_delete instr \<noteq> None then Inr 2
      else Inl InstructionWithoutType)"

subsection \<open>\<open>Instruction.hash\<close>\<close>

text \<open>The three \<open>forEach\<close> callbacks of \<open>hash\<close>, each feeding the hash object.\<close>

definition arg_update :: "Argument \<Rightarrow> buffer \<Rightarrow> buffer" where
  "arg_update arg h =
     (let nameBuf = utf8 (arg_name arg);
          nameLenBuf = Long_toBytesLE (Long_fromNumber (length nameBuf));
          h1 = hash_update h nameLenBuf;
          h2 = hash_update h1 (utf8 (arg_name arg));
          valueLenBuf = Long_toBytesLE (Long_fromNumber (length (arg_value arg)));
          h3 = hash_update h2 valueLenBuf
      in hash_update h3 (arg_value arg))"

definition counter_update :: "Long \<Rightarrow> buffer \<Rightarrow> buffer" where
  "counter_update sc h = hash_update h (Long_toBytesLE sc)"

definition identity_update :: "IdentityWrapper \<Rightarrow> buffer \<Rightarrow> buffer" where
  "identity_update si h =
     (let buf = iw_toBytes si;
          lenBuf = Long_toBytesLE (Long_fromNumber (length buf));
          h1 = hash_update h lenBuf
      in hash_update h1 (iw_toBytes si))"

text \<open>
  The \<open>switch\<close> of \<open>hash\<close> on the type: it feeds the contract ID and selects the
  arguments (none for a delete).
\<close>

definition hash_switch :: "Instruction \<Rightarrow> nat \<Rightarrow> buffer \<Rightarrow> buffer \<times> Argument list" where
  "hash_switch instr t h =
     (if t = 0 then
        (case instr_spawn instr of
           Some s \<Rightarrow> (hash_update h (utf8 (spawn_contractID s)), spawn_args s)
         | None \<Rightarrow> (h, []))
      else if t = 1 then
        (case instr_invoke instr of
           Some v \<Rightarrow> (hash_update h (utf8 (invoke_contractID v)), invoke_args v)
         | None \<Rightarrow> (h, []))
      else if t = 2 then
        (case instr_delete instr of
           Some d \<Rightarrow> (hash_update h (utf8 (delete_contractID d)), [])
         | None \<Rightarrow> (h, []))
      else (h, []))"

definition Instruction_hash :: "digest_fn \<Rightarrow> Instruction \<Rightarrow> error + buffer" where
  "Instruction_hash sha256 instr =
     (let h1 = hash_update createHash (instanceID instr) in
      case Instruction_type instr of
        Inl e \<Rightarrow> Inl e
      | Inr t \<Rightarrow>
          let h2 = hash_update h1 [word_of_nat t];
              (h3, args) = hash_switch instr t h2;
              h4 = forEach_update arg_update args h3;
              h5 = forEach_update counter_update (signerCounter instr) h4;
              h6 = forEach_update identity_update (signerIdentities instr) h5
          in Inr (hash_digest sha256 h6))"

subsection \<open>\<open>Instruction.deriveId\<close>\<close>

text \<open>
  The \<open>forEach\<close> of \<open>deriveId\<close> over the signatures: each one is fed as its length on
  four bytes and its bytes. \<open>writeUInt32LE\<close> throws on a length of \<open>2^32\<close> or more.
\<close>

fun deriveId_signatures :: "buffer list \<Rightarrow> buffer \<Rightarrow> error + buffer" where
  "deriveId_signatures [] h = Inr h"
| "deriveId_signatures (sig # rest) h =
     (case writeUInt32LE (length sig) of
        Inl e \<Rightarrow> Inl e
      | Inr b \<Rightarrow> deriveId_signatures rest (hash_update (hash_update h b) sig))"

definition Instruction_deriveId :: "digest_fn \<Rightarrow> Instruction \<Rightarrow> string \<Rightarrow> error + buffer" where
  "Instruction_deriveId sha256 instr what =
     (case Instruction_hash sha256 instr of
        Inl e \<Rightarrow> Inl e
      | Inr ih \<Rightarrow>
          let h1 = hash_update createHash ih in
          (case writeUInt32LE (length (signatures instr)) of
             Inl e \<Rightarrow> Inl e
           | Inr b \<Rightarrow>
               (case deriveId_signatures (signatures instr) (hash_update h1 b) of
                  Inl e \<Rightarrow> Inl e
                | Inr h2 \<Rightarrow> Inr (hash_digest sha256 (hash_update h2 (utf8 what))))))"

subsection \<open>\<open>ClientTransaction.hash\<close> and \<open>signWith\<close>\<close>

text \<open>The \<open>forEach\<close> of \<open>ClientTransaction.hash\<close>: it stops at the first instruction whose hash throws.\<close>

fun hash_instructions :: "digest_fn \<Rightarrow> Instruction list \<Rightarrow> buffer \<Rightarrow> error + buffer" where
  "hash_instructions sha256 [] h = Inr h"
| "hash_instructions sha256 (i # rest) h =
     (case Instruction_hash sha256 i of
        Inl e \<Rightarrow> Inl e
      | Inr ih \<Rightarrow> hash_instructions sha256 rest (hash_update h ih))"

definition ClientTransaction_hash :: "digest_fn \<Rightarrow> ClientTransaction \<Rightarrow> error + buffer" where
  "ClientTransaction_hash sha256 tx =
     (case hash_instructions sha256 (instructions tx) createHash of
        Inl e \<Rightarrow> Inl e
      | Inr h \<Rightarrow> Inr (hash_digest sha256 h))"

definition Instruction_signWith :: "buffer \<Rightarrow> Signer list \<Rightarrow> Instruction \<Rightarrow> Instruction" where
  "Instruction_signWith ctxHash signers instr =
     instr\<lparr>signatures := map (\<lambda>s. signer_sign s ctxHash) signers\<rparr>"

text \<open>
  \<open>signWith\<close> mutates the instructions in place; the model returns the transaction after
  the call, or the error thrown.
\<close>

definition ClientTransaction_signWith ::
  "digest_fn \<Rightarrow> ClientTransaction \<Rightarrow> Signer list list \<Rightarrow> error + ClientTransaction" where
  "ClientTransaction_signWith sha256 tx signers =
     (case ClientTransaction_hash sha256 tx of
        Inl e \<Rightarrow> Inl e
      | Inr ctxHash \<Rightarrow>
          if length signers \<noteq> length (instructions tx) then Inl NeedSameNumberOfSigners
          else Inr (tx\<lparr>instructions :=
                        map (\<lambda>(instr, i). Instruction_signWith ctxHash (signers ! i) instr)
                            (zip (instructions tx) [0..<length (instructions tx)])\<rparr>))"

subsection \<open>\<open>ClientTransaction.updateCounters\<close> and \<open>updateCountersAndSign\<close>\<close>

text \<open>
  \<open>Array.prototype.findIndex\<close>: the index of the first element that satisfies the
  predicate, or \<open>-1\<close>. \<open>reduce\<close> without an initial value throws a TypeError on an
  empty array. Reading \<open>array[i]\<close> out of range gives \<open>undefined\<close>, here \<open>None\<close>.
\<close>

fun findIndex :: "('a \<Rightarrow> bool) \<Rightarrow> 'a list \<Rightarrow> int" where
  "findIndex P [] = - 1"
| "findIndex P (x # xs) =
     (if P x then 0 else (let r = findIndex P xs in if r < 0 then - 1 else r + 1))"

definition reduce_concat :: "'a list list \<Rightarrow> error + 'a list" where
  "reduce_concat xss = (case xss of [] \<Rightarrow> Inl TypeError | xs # rest \<Rightarrow> Inr (foldl (@) xs rest))"

definition array_get :: "'a list \<Rightarrow> nat \<Rightarrow> 'a option" where
  "array_get xs i = (if i < length xs then Some (xs ! i) else None)"

text \<open>
  The \<open>filter\<close> that keeps a signer when it is the first one of the concatenated list with
  its \<open>toString()\<close>.
\<close>

definition filter_unique :: "Identity list \<Rightarrow> Identity list" where
  "filter_unique uniqueSigners =
     map fst (filter (\<lambda>(us, i). findIndex (\<lambda>usf. id_toString usf = id_toString us) uniqueSigners = int i)
                     (zip uniqueSigners [0..<length uniqueSigners]))"

text \<open>
  The object \<open>signerCounters\<close>: a property that was never set reads as \<open>undefined\<close>, as
  does one set to a counter the reply did not contain.
\<close>

type_synonym counter_table = "string \<Rightarrow> Long option"

definition store_counters :: "Identity list \<Rightarrow> Long list \<Rightarrow> counter_table" where
  "store_counters uniqueSigners counters =
     fold (\<lambda>(us, i) signerCounters. signerCounters(id_toString us := array_get counters i))
          (zip uniqueSigners [0..<length uniqueSigners])
          (\<lambda>key. None)"

text \<open>
  The inner \<open>forEach\<close> over the signers of one instruction: it appends the signer's
  wrapper and its current counter to the instruction and adds one to the counter in the
  table. On a counter that is \<open>undefined\<close>, \<open>.add(1)\<close> throws a TypeError.
\<close>

fun assign_signers ::
  "Identity list \<Rightarrow> Instruction \<Rightarrow> counter_table \<Rightarrow> error + Instruction \<times> counter_table" where
  "assign_signers [] instr signerCounters = Inr (instr, signerCounters)"
| "assign_signers (signer # rest) instr signerCounters =
     (case signerCounters (id_toString signer) of
        None \<Rightarrow> Inl TypeError
      | Some counter \<Rightarrow>
          assign_signers rest
            (instr\<lparr>signerIdentities := signerIdentities instr @ [id_toWrapper signer],
                   signerCounter := signerCounter instr @ [counter]\<rparr>)
            (signerCounters(id_toString signer := Some (counter + 1))))"

text \<open>The outer loop over the instructions, each with the signer list of the same index.\<close>

fun assign_counters ::
  "Identity list list \<Rightarrow> Instruction list \<Rightarrow> counter_table \<Rightarrow> error + Instruction list" where
  "assign_counters signers [] signerCounters = Inr []"
| "assign_counters [] (instr # rest) signerCounters = Inl TypeError"
| "assign_counters (grp # grps) (instr # rest) signerCounters =
     (case assign_signers grp instr signerCounters of
        Inl e \<Rightarrow> Inl e
      | Inr (instr', signerCounters') \<Rightarrow>
          (case assign_counters grps rest signerCounters' of
             Inl e \<Rightarrow> Inl e
           | Inr rest' \<Rightarrow> Inr (instr' # rest')))"

text \<open>
  \<open>updateCounters\<close> takes the counter service \<open>rpc.getSignerCounters\<close> as a function from
  the identities and the increment to the counters or a rejection. It returns the requests
  it sent to the service, and the transaction after the call or the rejection.
\<close>

type_synonym counter_service = "Identity list \<Rightarrow> nat \<Rightarrow> error + Long list"

definition updateCounters ::
  "counter_service \<Rightarrow> ClientTransaction \<Rightarrow> Identity list list
     \<Rightarrow> (Identity list \<times> nat) list \<times> (error + ClientTransaction)" where
  "updateCounters rpc tx signers =
     (if length (instructions tx) = 0 then ([], Inr tx)
      else if length signers \<noteq> length (instructions tx) then ([], Inl LengthsDoNotMatch)
      else
        (case reduce_concat signers of
           Inl e \<Rightarrow> ([], Inl e)
         | Inr allSigners \<Rightarrow>
             let uniqueSigners = filter_unique allSigners in
             (case rpc uniqueSigners 1 of
                Inl e \<Rightarrow> ([(uniqueSigners, 1)], Inl e)
              | Inr counters \<Rightarrow>
                  let signerCounters = store_counters uniqueSigners counters in
                  (case assign_counters signers (instructions tx) signerCounters of
                     Inl e \<Rightarrow> ([(uniqueSigners, 1)], Inl e)
                   | Inr instrs \<Rightarrow> ([(uniqueSigners, 1)], Inr (tx\<lparr>instructions := instrs\<rparr>))))))"

text \<open>
  \<open>updateCountersAndSign\<close>: a single signer group is pushed again once per further
  instruction; a signer is passed to \<open>updateCounters\<close> as the identity it is.
\<close>

definition extend_signers :: "nat \<Rightarrow> 'a list list \<Rightarrow> 'a list list" where
  "extend_signers n signers =
     (if length signers = 1 then signers @ replicate (n - 1) (signers ! 0) else signers)"

definition updateCountersAndSign ::
  "counter_service \<Rightarrow> digest_fn \<Rightarrow> ClientTransaction \<Rightarrow> Signer list list
     \<Rightarrow> (Identity list \<times> nat) list \<times> (error + ClientTransaction)" where
  "updateCountersAndSign rpc sha256 tx signers =
     (let signers' = extend_signers (length (instructions tx)) signers in
      case updateCounters rpc tx (map (map signer_identity) signers') of
        (requests, Inl e) \<Rightarrow> (requests, Inl e)
      | (requests, Inr tx') \<Rightarrow> (requests, ClientTransaction_signWith sha256 tx' signers'))"

section \<open>The query for a proof (byzcoin-rpc.ts)\<close>

text \<open>
  \<open>getProof\<close> sends a \<open>GetProof\<close> request for the key on the chain of the genesis block
  and returns the proof of the reply. The connection's \<open>send\<close> is a function from the
  request to the reply or a rejection.
\<close>

record GetProof =
  gp_id :: buffer
  gp_key :: buffer
  gp_version :: nat

record 'r GetProofResponse =
  reply_proof :: "'r Proof"

definition currentVersion :: nat where
  "currentVersion = 1"

definition getProof ::
  "(GetProof \<Rightarrow> error + 'r GetProofResponse) \<Rightarrow> 'r SkipBlock \<Rightarrow> buffer \<Rightarrow> error + 'r Proof" where
  "getProof conn_send genesis key =
     (let req = \<lparr>gp_id = sb_hash genesis, gp_key = key, gp_version = currentVersion\<rparr> in
      case conn_send req of
        Inl e \<Rightarrow> Inl e
      | Inr reply \<Rightarrow> Inr (reply_proof reply))"

section \<open>SHA-256\<close>

text \<open>
  The digest function itself, as FIPS 180-4 defines it, for the hashes of concrete
  inputs. Its 32-bit words are natural numbers below \<open>2^32\<close>: addition is modulo
  \<open>2^32\<close>, a rotation to the right moves the low bits to the top, and the complement
  of \<open>x\<close> is \<open>2^32 - 1 - x\<close>. The message is padded with the byte \<open>0x80\<close>, zero
  bytes up to 56 modulo 64, and its length in bits on eight big-endian bytes.
\<close>

definition add32 :: "nat \<Rightarrow> nat \<Rightarrow> nat" where
  "add32 a b = (a + b) mod 4294967296"

definition rotr :: "nat \<Rightarrow> nat \<Rightarrow> nat" where
  "rotr n x = x div 2 ^ n + (x mod 2 ^ n) * 2 ^ (32 - n)"

definition sha_ch :: "nat \<Rightarrow> nat \<Rightarrow> nat \<Rightarrow> nat" where
  "sha_ch x y z = (x AND y) XOR ((4294967295 - x) AND z)"

definition sha_maj :: "nat \<Rightarrow> nat \<Rightarrow> nat \<Rightarrow> nat" where
  "sha_maj x y z = (x AND y) XOR (x AND z) XOR (y AND z)"

definition bsig0 :: "nat \<Rightarrow> nat" where
  "bsig0 x = rotr 2 x XOR rotr 13 x XOR rotr 22 x"

definition bsig1 :: "nat \<Rightarrow> nat" where
  "bsig1 x = rotr 6 x XOR rotr 11 x XOR rotr 25 x"

definition ssig0 :: "nat \<Rightarrow> nat" where
  "ssig0 x = rotr 7 x XOR rotr 18 x XOR x div 2 ^ 3"

definition ssig1 :: "nat \<Rightarrow> nat" where
  "ssig1 x = rotr 17 x XOR rotr 19 x XOR x div 2 ^ 10"

text \<open>
  The round constants (the first 32 bits of the fractional parts of the cube roots of the
  first 64 primes) and the initial hash value (of the square roots of the first 8 primes),
  in decimal.
\<close>

definition sha_K :: "nat list" where
  "sha_K =
     [1116352408, 1899447441, 3049323471, 3921009573, 961987163, 1508970993, 2453635748,
      2870763221, 3624381080, 310598401, 607225278, 1426881987, 1925078388, 2162078206,
      2614888103, 3248222580, 3835390401, 4022224774, 264347078, 604807628, 770255983,
      1249150122, 1555081692, 1996064986, 2554220882, 2821834349, 2952996808,
      3210313671, 3336571891, 3584528711, 113926993, 338241895, 666307205, 773529912,
      1294757372, 1396182291, 1695183700, 1986661051, 2177026350, 2456956037,
      2730485921, 2820302411, 3259730800, 3345764771, 3516065817, 3600352804,
      4094571909, 275423344, 430227734, 506948616, 659060556, 883997877, 958139571,
      1322822218, 1537002063, 1747873779, 1955562222, 2024104815, 2227730452,
      2361852424, 2428436474, 2756734187, 3204031479, 3329325298]"

definition sha_H0 :: "nat list" where
  "sha_H0 =
     [1779033703, 3144134277, 1013904242, 2773480762, 1359893119, 2600822924, 528734635,
      1541459225]"

text \<open>
  The message schedule, from the window of the last sixteen words (oldest first):
  \<open>W\<^sub>t = \<sigma>\<^sub>1(W\<^sub>t\<^sub>-\<^sub>2) + W\<^sub>t\<^sub>-\<^sub>7 + \<sigma>\<^sub>0(W\<^sub>t\<^sub>-\<^sub>1\<^sub>5) + W\<^sub>t\<^sub>-\<^sub>1\<^sub>6\<close>.
\<close>

fun next_w :: "nat list \<Rightarrow> nat" where
  "next_w (w0 # w1 # w2 # w3 # w4 # w5 # w6 # w7 # w8 # w9 # w10 # w11 # w12 # w13 # w14 # rest) =
     add32 (add32 (add32 (ssig1 w14) w9) (ssig0 w1)) w0"
| "next_w ws = 0"

fun schedule :: "nat \<Rightarrow> nat list \<Rightarrow> nat list" where
  "schedule 0 win = []"
| "schedule (Suc n) win = next_w win # schedule n (tl win @ [next_w win])"

fun sha_round :: "nat \<times> nat \<Rightarrow> nat list \<Rightarrow> nat list" where
  "sha_round (k, w) [a, b, c, d, e, f, g, h] =
     (let t1 = add32 (add32 (add32 (add32 h (bsig1 e)) (sha_ch e f g)) k) w;
          t2 = add32 (bsig0 a) (sha_maj a b c)
      in [add32 t1 t2, a, b, c, add32 d t1, e, f, g])"
| "sha_round kw s = s"

definition compress :: "nat list \<Rightarrow> nat list \<Rightarrow> nat list" where
  "compress hs block = map2 add32 hs (fold sha_round (zip sha_K (block @ schedule 48 block)) hs)"

fun be_words :: "nat list \<Rightarrow> nat list" where
  "be_words (a # b # c # d # rest) = (((a * 256 + b) * 256 + c) * 256 + d) # be_words rest"
| "be_words bs = []"

fun chunks16 :: "nat list \<Rightarrow> nat list list" where
  "chunks16 (w0 # w1 # w2 # w3 # w4 # w5 # w6 # w7 # w8 # w9 # w10 # w11 # w12 # w13 # w14 # w15 # rest) =
     [w0, w1, w2, w3, w4, w5, w6, w7, w8, w9, w10, w11, w12, w13, w14, w15] # chunks16 rest"
| "chunks16 ws = []"

definition sha_pad :: "nat list \<Rightarrow> nat list" where
  "sha_pad msg =
     msg @ [128] @ replicate ((119 - length msg mod 64) mod 64) 0
     @ map (\<lambda>j. ((8 * length msg) div 256 ^ (7 - j)) mod 256) [0..<8]"

definition out_bytes :: "nat \<Rightarrow> nat list" where
  "out_bytes w = [w div 16777216, (w div 65536) mod 256, (w div 256) mod 256, w mod 256]"

definition sha256_nat :: "nat list \<Rightarrow> nat list" where
  "sha256_nat msg =
     concat (map out_bytes (fold (\<lambda>block hs. compress hs block) (chunks16 (be_words (sha_pad msg))) sha_H0))"

definition SHA256 :: digest_fn where
  "SHA256 msg = map word_of_nat (sha256_nat (map unat msg))"

text \<open>
  One step of the schedule and of a round with the new word, and the two temporaries,
  computed once: the form in which concrete digests are evaluated.
\<close>

definition sched_step :: "nat \<Rightarrow> nat list \<Rightarrow> nat \<Rightarrow> nat list" where
  "sched_step n win w = w # schedule n (tl win @ [w])"

definition round_step :: "nat list \<Rightarrow> nat \<Rightarrow> nat \<Rightarrow> nat list" where
  "round_step s t1 t2 =
     (case s of [a, b, c, d, e, f, g, h] \<Rightarrow> [add32 t1 t2, a, b, c, add32 d t1, e, f, g] | _ \<Rightarrow> s)"

subsection \<open>What the walk is meant to compute\<close>

text \<open>
  The path of a key is the bits of its digest, byte after byte, the most significant bit
  of each byte first. \<open>is_set bits i\<close>: bit \<open>i\<close> of the path is set; past the end of the
  path no bit is set.
\<close>

definition byte_bits :: "byte \<Rightarrow> bool list" where
  "byte_bits b = [bit b 7, bit b 6, bit b 5, bit b 4, bit b 3, bit b 2, bit b 1, bit b 0]"

definition digest_bits :: "buffer \<Rightarrow> bool list" where
  "digest_bits d = concat (map byte_bits d)"

definition is_set :: "bool list \<Rightarrow> nat \<Rightarrow> bool" where
  "is_set bits i = (case drop i bits of [] \<Rightarrow> False | b # rest \<Rightarrow> b)"

text \<open>
  The hash of an interior node, the child selected by a bit, and the expected hash at
  each depth: the hash of interior node 0 at depth 0, then the child of node \<open>i\<close>
  selected by bit \<open>i\<close> of the path (left when the bit is set, right otherwise) at depth
  \<open>i + 1\<close>. \<open>chain_ok\<close> says that at every depth the expected hash is the hash of the
  interior node there.
\<close>

definition child_hash :: "InteriorNode \<Rightarrow> bool \<Rightarrow> buffer" where
  "child_hash n b = (if b then in_left n else in_right n)"

definition node_hash :: "digest_fn \<Rightarrow> InteriorNode \<Rightarrow> buffer" where
  "node_hash sha256 n = sha256 (in_left n @ in_right n)"

fun expected_at :: "digest_fn \<Rightarrow> InclusionProof \<Rightarrow> bool list \<Rightarrow> nat \<Rightarrow> buffer" where
  "expected_at sha256 ip path 0 = node_hash sha256 (interiors ip ! 0)"
| "expected_at sha256 ip path (Suc i) = child_hash (interiors ip ! i) (is_set path i)"

definition chain_ok :: "digest_fn \<Rightarrow> InclusionProof \<Rightarrow> bool list \<Rightarrow> bool" where
  "chain_ok sha256 ip path =
     list_all (\<lambda>i. expected_at sha256 ip path i = node_hash sha256 (interiors ip ! i))
              [0..<length (interiors ip)]"

text \<open>
  The leaf and empty digests are the hashes of the terminating nodes, over the prefix
  packed eight bits to the byte: bit \<open>i\<close> of the prefix is bit \<open>7 - i mod 8\<close> of byte
  \<open>i div 8\<close>.
\<close>

definition packed_prefix :: "bool list \<Rightarrow> buffer" where
  "packed_prefix bits =
     map (\<lambda>k. horner_sum of_bool 2 (rev (take 8 (drop (8 * k) bits @ replicate 8 False))))
         [0..<(length bits + 7) div 8]"

definition leaf_digest :: "digest_fn \<Rightarrow> InclusionProof \<Rightarrow> buffer" where
  "leaf_digest sha256 ip =
     sha256 ([3] @ nonce ip @ packed_prefix (leaf_prefix (leaf ip))
             @ le_bytes 4 (length (leaf_prefix (leaf ip))) @ leaf_key (leaf ip) @ leaf_value (leaf ip))"

definition empty_digest :: "digest_fn \<Rightarrow> InclusionProof \<Rightarrow> buffer" where
  "empty_digest sha256 ip =
     sha256 ([2] @ nonce ip @ packed_prefix (empty_prefix (empty_node ip))
             @ le_bytes 4 (length (empty_prefix (empty_node ip))))"

subsection \<open>What the walk over the forward links is meant to check\<close>

text \<open>
  \<open>prechecks\<close>: the checks of \<open>verify\<close> that come before the links (the latest block's
  hash is the hash recomputed from it, its payload decodes, and the trie root in it is the
  hash of interior node 0).

  \<open>trusted_publics lib p k\<close>: the service keys in effect when link \<open>k \<ge> 1\<close> is
  checked. They are the keys of the latest block's roster for link 1; after link \<open>k\<close>
  they are the keys of the roster link \<open>k\<close> carries, when it carries one, and unchanged
  otherwise.

  \<open>link_error lib p k\<close>: what is wrong with link \<open>k\<close>, if anything: its signature
  does not verify against the keys in effect, or it does not start at the block the
  previous link reaches. \<open>first_link_error\<close> is the error of the first such link among
  \<open>links[1..]\<close>, in order.
\<close>

definition prechecks :: "('r, 'p) skipchain_lib \<Rightarrow> digest_fn \<Rightarrow> 'r Proof \<Rightarrow> bool" where
  "prechecks lib sha256 p =
     (computeHash lib (latest p) = sb_hash (latest p)
      \<and> interiors (inclusionproof p) \<noteq> []
      \<and> decode_trieRoot lib (sb_data (latest p))
          = Some (node_hash sha256 (interiors (inclusionproof p) ! 0)))"

fun trusted_publics :: "('r, 'p) skipchain_lib \<Rightarrow> 'r Proof \<Rightarrow> nat \<Rightarrow> 'p" where
  "trusted_publics lib p 0 = getServicePublics lib (sb_roster (latest p))"
| "trusted_publics lib p (Suc k) =
     (if k = 0 then getServicePublics lib (sb_roster (latest p))
      else case fl_newRoster (links p ! k) of
             Some roster \<Rightarrow> getServicePublics lib roster
           | None \<Rightarrow> trusted_publics lib p k)"

definition link_error :: "('r, 'p) skipchain_lib \<Rightarrow> 'r Proof \<Rightarrow> nat \<Rightarrow> error option" where
  "link_error lib p k =
     (case link_verify lib (links p ! k) (trusted_publics lib p k) of
        Some message \<Rightarrow> Some (InvalidForwardLinkSignature message)
      | None \<Rightarrow>
          if fl_from (links p ! k) \<noteq> fl_to (links p ! (k - 1)) then Some InvalidChainOfForwardLinks
          else None)"

definition first_link_error :: "('r, 'p) skipchain_lib \<Rightarrow> 'r Proof \<Rightarrow> error option" where
  "first_link_error lib p =
     (case List.find (\<lambda>k. link_error lib p k \<noteq> None) [1..<length (links p)] of
        Some k \<Rightarrow> link_error lib p k
      | None \<Rightarrow> None)"

subsection \<open>What the hashes are meant to cover\<close>

text \<open>
  The encoding of one argument and of one identity in the instruction hash (a length on
  eight little-endian bytes before the name, the value and the identity's bytes), and the
  contract ID and arguments of an instruction according to its type.
\<close>

definition arg_bytes :: "Argument \<Rightarrow> buffer" where
  "arg_bytes arg =
     Long_toBytesLE (word_of_nat (length (utf8 (arg_name arg)))) @ utf8 (arg_name arg)
     @ Long_toBytesLE (word_of_nat (length (arg_value arg))) @ arg_value arg"

definition identity_bytes :: "IdentityWrapper \<Rightarrow> buffer" where
  "identity_bytes si = Long_toBytesLE (word_of_nat (length (iw_toBytes si))) @ iw_toBytes si"

definition contract_of :: "Instruction \<Rightarrow> string" where
  "contract_of instr =
     (case instr_spawn instr of
        Some s \<Rightarrow> spawn_contractID s
      | None \<Rightarrow>
          (case instr_invoke instr of
             Some v \<Rightarrow> invoke_contractID v
           | None \<Rightarrow> (case instr_delete instr of Some d \<Rightarrow> delete_contractID d | None \<Rightarrow> [])))"

definition args_of :: "Instruction \<Rightarrow> Argument list" where
  "args_of instr =
     (case instr_spawn instr of
        Some s \<Rightarrow> spawn_args s
      | None \<Rightarrow> (case instr_invoke instr of Some v \<Rightarrow> invoke_args v | None \<Rightarrow> []))"

definition signature_bytes :: "buffer \<Rightarrow> buffer" where
  "signature_bytes sig = le_bytes 4 (length sig) @ sig"

subsection \<open>What the counter allocation is meant to compute\<close>

text \<open>
  \<open>uses served k\<close>: how many of the signer occurrences \<open>served\<close> are of the identity with
  the string \<open>k\<close>. \<open>earlier_uses signers i j\<close>: how many signer occurrences before
  signer \<open>j\<close> of instruction \<open>i\<close>, in the order of the instructions and of each signer
  list, are of the same identity. \<open>table_after\<close> is the table of next unused counters
  once the occurrences \<open>served\<close> have been served from the counters \<open>fetched\<close>;
  \<open>counters_for\<close> and \<open>assigned\<close> serve one signer list and all of them.
\<close>

definition uses :: "Identity list \<Rightarrow> string \<Rightarrow> nat" where
  "uses served k = length (filter (\<lambda>s. id_toString s = k) served)"

definition earlier_uses :: "Identity list list \<Rightarrow> nat \<Rightarrow> nat \<Rightarrow> nat" where
  "earlier_uses signers i j =
     uses (concat (take i signers) @ take j (signers ! i)) (id_toString (signers ! i ! j))"

definition table_after :: "(string \<Rightarrow> Long) \<Rightarrow> string set \<Rightarrow> Identity list \<Rightarrow> counter_table" where
  "table_after fetched S served =
     (\<lambda>k. if k \<in> S then Some (fetched k + word_of_nat (uses served k)) else None)"

fun counters_for :: "(string \<Rightarrow> Long) \<Rightarrow> Identity list \<Rightarrow> Identity list \<Rightarrow> Long list" where
  "counters_for fetched served [] = []"
| "counters_for fetched served (s # ss) =
     (fetched (id_toString s) + word_of_nat (uses served (id_toString s)))
       # counters_for fetched (served @ [s]) ss"

fun assigned ::
  "(string \<Rightarrow> Long) \<Rightarrow> Identity list \<Rightarrow> Identity list list \<Rightarrow> Instruction list \<Rightarrow> Instruction list" where
  "assigned fetched served (g # gs) (instr # rest) =
     instr\<lparr>signerIdentities := signerIdentities instr @ map id_toWrapper g,
            signerCounter := signerCounter instr @ counters_for fetched served g\<rparr>
       # assigned fetched (served @ g) gs rest"
| "assigned fetched served gs [] = []"
| "assigned fetched served [] rest = []"

text \<open>\<open>first_at xs i\<close>: position \<open>i\<close> holds the first identity of \<open>xs\<close> with its string.\<close>

definition first_at :: "Identity list \<Rightarrow> nat \<Rightarrow> bool" where
  "first_at xs i = (i < length xs \<and> (\<forall>j<i. id_toString (xs ! j) \<noteq> id_toString (xs ! i)))"

subsection \<open>Fixtures\<close>

text \<open>
  Concrete instances are evaluated with the digest that returns its input, the symbolic
  hash of protocol models: it is collision free, and the bits of a key's digest are the
  bits of the key.
\<close>

definition id_digest :: digest_fn where
  "id_digest bs = bs"

definition no_block :: "unit SkipBlock" where
  "no_block = \<lparr>sb_hash = [], sb_data = [], sb_roster = (), sb_content = []\<rparr>"

text \<open>
  A second digest, which complements every byte: the bits of a key's digest are then not
  the bits of the key.
\<close>

definition flip_digest :: digest_fn where
  "flip_digest bs = map (\<lambda>b. NOT b) bs"

text \<open>
  A presence proof of depth two for the key \<open>[128]\<close> under \<open>flip_digest\<close>: the key's
  digest is \<open>[127]\<close>, its path \<open>0, 1, 1, ...\<close>. The root node's right child is the hash
  of the second node, whose left child is the leaf's hash; the leaf declares the prefix
  \<open>0, 1\<close>.
\<close>

definition presence_leaf :: LeafNode where
  "presence_leaf = \<lparr>leaf_prefix = [False, True], leaf_key = [128], leaf_value = [7]\<rparr>"

definition presence_proof :: "unit Proof" where
  "presence_proof =
     \<lparr>inclusionproof =
        \<lparr>interiors = [\<lparr>in_left = [5], in_right = [3, 9, 64, 2, 0, 0, 0, 128, 7, 254]\<rparr>,
                      \<lparr>in_left = [252, 246, 191, 253, 255, 255, 255, 127, 248], in_right = [1]\<rparr>],
         leaf = presence_leaf,
         empty_node = \<lparr>empty_prefix = []\<rparr>,
         nonce = [9]\<rparr>,
      latest = no_block,
      links = []\<rparr>"

text \<open>
  A proof whose single interior node has the leaf's hash as both children, for a leaf
  that declares the two-bit prefix \<open>1, 0\<close> although the walk is one bit long.
\<close>

definition forged_leaf :: LeafNode where
  "forged_leaf = \<lparr>leaf_prefix = [True, False], leaf_key = [1], leaf_value = []\<rparr>"

definition forged_inclusion :: "digest_fn \<Rightarrow> InclusionProof" where
  "forged_inclusion sha256 =
     \<lparr>interiors = [\<lparr>in_left = sha256 ([3] @ [] @ [128] @ [2, 0, 0, 0] @ [1] @ []),
                     in_right = sha256 ([3] @ [] @ [128] @ [2, 0, 0, 0] @ [1] @ [])\<rparr>],
      leaf = forged_leaf,
      empty_node = \<lparr>empty_prefix = []\<rparr>,
      nonce = []\<rparr>"

definition forged_proof :: "digest_fn \<Rightarrow> unit Proof" where
  "forged_proof sha256 = \<lparr>inclusionproof = forged_inclusion sha256, latest = no_block, links = []\<rparr>"

text \<open>
  A stand-in for the skipchain library: a block's hash is recomputed as its content, the
  payload is the trie root, a roster is its list of service keys, and a link's signature
  verifies when it is the list of keys it is checked against.
\<close>

definition toy_lib :: "(buffer, buffer) skipchain_lib" where
  "toy_lib =
     \<lparr>computeHash = sb_content,
      decode_trieRoot = Some,
      getServicePublics = (\<lambda>roster. roster),
      link_verify = (\<lambda>link publics. if fl_signature link = publics then None
                                      else Some ''bad signature'')\<rparr>"

definition toy_inclusion :: InclusionProof where
  "toy_inclusion =
     \<lparr>interiors = [\<lparr>in_left = [1], in_right = [2]\<rparr>],
      leaf = \<lparr>leaf_prefix = [], leaf_key = [], leaf_value = []\<rparr>,
      empty_node = \<lparr>empty_prefix = []\<rparr>,
      nonce = []\<rparr>"

definition toy_latest :: "buffer SkipBlock" where
  "toy_latest = \<lparr>sb_hash = [30], sb_data = [1, 2], sb_roster = [100], sb_content = [30]\<rparr>"

text \<open>
  A chain from the genesis block \<open>[10]\<close> to the latest block \<open>[30]\<close>. The first link
  points to the genesis block and starts nowhere. Link 1 is signed by the latest block's
  roster \<open>[100]\<close> and carries the new roster \<open>[101]\<close>; link 2 is signed by the new
  roster.
\<close>

definition rotation_proof :: "buffer Proof" where
  "rotation_proof =
     \<lparr>inclusionproof = toy_inclusion,
      latest = toy_latest,
      links = [\<lparr>fl_from = [], fl_to = [10], fl_newRoster = None, fl_signature = []\<rparr>,
               \<lparr>fl_from = [10], fl_to = [20], fl_newRoster = Some [101], fl_signature = [100]\<rparr>,
               \<lparr>fl_from = [20], fl_to = [30], fl_newRoster = None, fl_signature = [101]\<rparr>]\<rparr>"

text \<open>The same chain with link 2 signed by the roster that link 1 replaced.\<close>

definition stale_signer_proof :: "buffer Proof" where
  "stale_signer_proof =
     \<lparr>inclusionproof = toy_inclusion,
      latest = toy_latest,
      links = [\<lparr>fl_from = [], fl_to = [10], fl_newRoster = None, fl_signature = []\<rparr>,
               \<lparr>fl_from = [10], fl_to = [20], fl_newRoster = Some [101], fl_signature = [100]\<rparr>,
               \<lparr>fl_from = [20], fl_to = [30], fl_newRoster = None, fl_signature = [100]\<rparr>]\<rparr>"

text \<open>A proof whose first link starts at the genesis block \<open>[10]\<close> and points elsewhere.\<close>

definition from_genesis_proof :: "buffer Proof" where
  "from_genesis_proof =
     \<lparr>inclusionproof = toy_inclusion,
      latest = toy_latest,
      links = [\<lparr>fl_from = [10], fl_to = [30], fl_newRoster = None, fl_signature = []\<rparr>]\<rparr>"

text \<open>
  Spawn instructions of the contract \<open>c\<close> on the instance \<open>[1]\<close>, two arguments, two
  identities, and two signers whose toy signature of a message is the message after one
  byte naming the signer.
\<close>

definition spawn_instr :: "Argument list \<Rightarrow> Long list \<Rightarrow> IdentityWrapper list \<Rightarrow> Instruction" where
  "spawn_instr args counters identities =
     \<lparr>instr_spawn = Some \<lparr>spawn_contractID = ''c'', spawn_args = args\<rparr>,
      instr_invoke = None,
      instr_delete = None,
      instanceID = [1],
      signerCounter = counters,
      signerIdentities = identities,
      signatures = []\<rparr>"

definition arg_a :: Argument where
  "arg_a = \<lparr>arg_name = ''a'', arg_value = [1]\<rparr>"

definition arg_b :: Argument where
  "arg_b = \<lparr>arg_name = ''b'', arg_value = [2]\<rparr>"

definition wrapper_A :: IdentityWrapper where
  "wrapper_A = \<lparr>iw_toBytes = [170]\<rparr>"

definition wrapper_B :: IdentityWrapper where
  "wrapper_B = \<lparr>iw_toBytes = [187]\<rparr>"

definition identity_A :: Identity where
  "identity_A = \<lparr>id_toString = ''ed25519:aa'', id_toWrapper = wrapper_A\<rparr>"

definition identity_B :: Identity where
  "identity_B = \<lparr>id_toString = ''ed25519:bb'', id_toWrapper = wrapper_B\<rparr>"

definition signer_A :: Signer where
  "signer_A = \<lparr>signer_identity = identity_A, signer_sign = (\<lambda>msg. 10 # msg)\<rparr>"

definition signer_B :: Signer where
  "signer_B = \<lparr>signer_identity = identity_B, signer_sign = (\<lambda>msg. 11 # msg)\<rparr>"

definition two_instr_tx :: ClientTransaction where
  "two_instr_tx = \<lparr>instructions = [spawn_instr [] [] [], spawn_instr [arg_a] [] []]\<rparr>"

text \<open>
  A counter service that answers 5 for the identity \<open>A\<close> and 9 for every other one, a
  transaction of three spawn instructions and one of two.
\<close>

definition toy_fetched :: "string \<Rightarrow> Long" where
  "toy_fetched k = (if k = ''ed25519:aa'' then 5 else 9)"

definition toy_counters :: counter_service where
  "toy_counters us add = Inr (map (\<lambda>u. toy_fetched (id_toString u)) us)"

definition three_instr_tx :: ClientTransaction where
  "three_instr_tx =
     \<lparr>instructions = [spawn_instr [] [] [], spawn_instr [] [] [], spawn_instr [] [] []]\<rparr>"

definition plain_tx :: ClientTransaction where
  "plain_tx = \<lparr>instructions = [spawn_instr [] [] [], spawn_instr [] [] []]\<rparr>"

text \<open>
  A transaction without instructions, and one whose single instruction already carries
  the identity \<open>B\<close> with the counter 7.
\<close>

definition empty_tx :: ClientTransaction where
  "empty_tx = \<lparr>instructions = []\<rparr>"

definition prefilled_tx :: ClientTransaction where
  "prefilled_tx = \<lparr>instructions = [spawn_instr [] [7] [wrapper_B]]\<rparr>"

text \<open>A connection that answers every request with the proof \<open>stale_signer_proof\<close>.\<close>

definition toy_genesis :: "buffer SkipBlock" where
  "toy_genesis = \<lparr>sb_hash = [10], sb_data = [], sb_roster = [100], sb_content = [10]\<rparr>"

definition toy_send :: "GetProof \<Rightarrow> error + buffer GetProofResponse" where
  "toy_send req = Inr \<lparr>reply_proof = stale_signer_proof\<rparr>"

section \<open>Properties of SHA-256\<close>

text \<open>A digest is 32 bytes long.\<close>

lemma length_sha_round: "length (sha_round kw s) = length s"
  by (cases "(kw, s)" rule: sha_round.cases) (simp_all add: Let_def)

lemma length_fold_sha_round: "length (fold sha_round kws s) = length s"
  by (induction kws arbitrary: s) (simp_all add: length_sha_round)

lemma length_compress: "length (compress hs block) = length hs"
  by (simp add: compress_def length_fold_sha_round)

lemma length_fold_compress: "length (fold (\<lambda>block hs. compress hs block) blocks hs) = length hs"
  by (induction blocks arbitrary: hs) (simp_all add: length_compress)

lemma length_concat_out_bytes: "length (concat (map out_bytes ws)) = 4 * length ws"
  by (induction ws) (simp_all add: out_bytes_def)

lemma length_SHA256: "length (SHA256 msg) = 32"
  by (simp add: SHA256_def sha256_nat_def length_concat_out_bytes length_fold_compress sha_H0_def)

subsection \<open>Digests of concrete inputs\<close>

text \<open>
  The digest of \<open>abc\<close> is the test vector of FIPS 180-4; the others are the digests of
  the bytes hashed for the instructions of the fixtures.
\<close>

lemma schedule_numeral:
  "schedule (numeral k) win = sched_step (pred_numeral k) win (next_w win)"
  by (simp add: numeral_eq_Suc sched_step_def)

lemma schedule_one: "schedule (Suc 0) win = [next_w win]"
  by simp

lemma round_share:
  "sha_round (k, w) [a, b, c, d, e, f, g, h] =
     round_step [a, b, c, d, e, f, g, h]
       (add32 (add32 (add32 (add32 h (bsig1 e)) (sha_ch e f g)) k) w) (add32 (bsig0 a) (sha_maj a b c))"
  by (simp add: round_step_def Let_def)

lemma round_step_eval:
  "round_step [a, b, c, d, e, f, g, h] t1 t2 = [add32 t1 t2, a, b, c, add32 d t1, e, f, g]"
  by (simp add: round_step_def)

lemma replicate_numeral_cons: "replicate (numeral k) x = x # replicate (pred_numeral k) x"
  by (simp add: numeral_eq_Suc)

lemma add32_take: "add32 a b = take_bit 32 (a + b)"
  by (simp add: add32_def take_bit_eq_mod)

lemma rotr_bits:
  "rotr 2 x = drop_bit 2 x + push_bit 30 (take_bit 2 x)"
  "rotr 13 x = drop_bit 13 x + push_bit 19 (take_bit 13 x)"
  "rotr 22 x = drop_bit 22 x + push_bit 10 (take_bit 22 x)"
  "rotr 6 x = drop_bit 6 x + push_bit 26 (take_bit 6 x)"
  "rotr 11 x = drop_bit 11 x + push_bit 21 (take_bit 11 x)"
  "rotr 25 x = drop_bit 25 x + push_bit 7 (take_bit 25 x)"
  "rotr 7 x = drop_bit 7 x + push_bit 25 (take_bit 7 x)"
  "rotr 18 x = drop_bit 18 x + push_bit 14 (take_bit 18 x)"
  "rotr 17 x = drop_bit 17 x + push_bit 15 (take_bit 17 x)"
  "rotr 19 x = drop_bit 19 x + push_bit 13 (take_bit 19 x)"
  by (simp_all add: rotr_def drop_bit_eq_div take_bit_eq_mod push_bit_eq_mult)

lemma shr_bits: "x div 2 ^ 3 = drop_bit 3 x" "x div 2 ^ 10 = drop_bit 10 x" for x :: nat
  by (simp_all add: drop_bit_eq_div)

lemmas sha_eval = compress_def sha_K_def sha_H0_def add32_take sha_ch_def sha_maj_def bsig0_def
  bsig1_def ssig0_def ssig1_def rotr_bits shr_bits schedule_numeral schedule_one
  sched_step_def round_share round_step_eval

lemmas sha_pad_eval = sha_pad_def upt_rec replicate_numeral_cons

lemma SHA256_abc:
  "SHA256 [97, 98, 99] =
     [186, 120, 22, 191, 143, 1, 207, 234, 65, 65, 64, 222, 93, 174, 34, 35, 176, 3, 97,
     163, 150, 23, 122, 156, 180, 16, 255, 97, 242, 0, 21, 173]"
proof -
  have w: "be_words (sha_pad (map unat ([97, 98, 99] :: buffer))) =
     [1633837952, 0, 0, 0, 0, 0, 0, 0, 0, 0, 0, 0, 0, 0, 0, 24]"
    by (simp add: sha_pad_eval)
  have c: "compress sha_H0
     [1633837952, 0, 0, 0, 0, 0, 0, 0, 0, 0, 0, 0, 0, 0, 0, 24] =
     [3128432319, 2399260650, 1094795486, 1571693091, 2953011619, 2518121116,
     3021012833, 4060091821]"
    by (simp add: sha_eval del: sha_round.simps schedule.simps)
  show ?thesis
    unfolding SHA256_def sha256_nat_def w by (simp add: c out_bytes_def del: One_nat_def)
qed

lemma SHA256_args_ab:
  "SHA256 [1, 0, 99, 1, 0, 0, 0, 0, 0, 0, 0, 97, 1, 0, 0, 0, 0, 0, 0, 0, 1, 1, 0, 0, 0,
          0, 0, 0, 0, 98, 1, 0, 0, 0, 0, 0, 0, 0, 2] =
     [158, 34, 100, 109, 4, 90, 24, 113, 252, 230, 6, 12, 218, 99, 208, 14, 115, 108,
     245, 230, 31, 235, 43, 15, 136, 119, 158, 217, 30, 214, 31, 18]"
proof -
  have w: "be_words (sha_pad (map unat ([1, 0, 99, 1, 0, 0, 0, 0, 0, 0, 0, 97, 1, 0, 0, 0, 0, 0, 0, 0, 1,
                      1, 0, 0, 0, 0, 0, 0, 0, 98, 1, 0, 0, 0, 0, 0, 0, 0, 2] :: buffer))) =
     [16802561, 0, 97, 16777216, 0, 16842752, 0, 6422784, 0, 640, 0, 0, 0, 0, 0, 312]"
    by (simp add: sha_pad_eval)
  have c: "compress sha_H0
     [16802561, 0, 97, 16777216, 0, 16842752, 0, 6422784, 0, 640, 0, 0, 0, 0, 0, 312] =
     [2653054061, 73013361, 4242933260, 3663974414, 1936520678, 535505679, 2289540825,
     517349138]"
    by (simp add: sha_eval del: sha_round.simps schedule.simps)
  show ?thesis
    unfolding SHA256_def sha256_nat_def w by (simp add: c out_bytes_def del: One_nat_def)
qed

lemma SHA256_args_ba:
  "SHA256 [1, 0, 99, 1, 0, 0, 0, 0, 0, 0, 0, 98, 1, 0, 0, 0, 0, 0, 0, 0, 2, 1, 0, 0, 0,
          0, 0, 0, 0, 97, 1, 0, 0, 0, 0, 0, 0, 0, 1] =
     [88, 165, 241, 109, 251, 53, 92, 35, 160, 130, 103, 146, 110, 20, 235, 17, 188,
     133, 133, 124, 90, 219, 97, 64, 122, 57, 55, 86, 5, 214, 83, 239]"
proof -
  have w: "be_words (sha_pad (map unat ([1, 0, 99, 1, 0, 0, 0, 0, 0, 0, 0, 98, 1, 0, 0, 0, 0, 0, 0, 0, 2,
                      1, 0, 0, 0, 0, 0, 0, 0, 97, 1, 0, 0, 0, 0, 0, 0, 0, 1] :: buffer))) =
     [16802561, 0, 98, 16777216, 0, 33619968, 0, 6357248, 0, 384, 0, 0, 0, 0, 0, 312]"
    by (simp add: sha_pad_eval)
  have c: "compress sha_H0
     [16802561, 0, 98, 16777216, 0, 33619968, 0, 6357248, 0, 384, 0, 0, 0, 0, 0, 312] =
     [1487270253, 4214578211, 2692900754, 1846864657, 3162867068, 1524326720,
     2050570070, 97932271]"
    by (simp add: sha_eval del: sha_round.simps schedule.simps)
  show ?thesis
    unfolding SHA256_def sha256_nat_def w by (simp add: c out_bytes_def del: One_nat_def)
qed

lemma SHA256_counters_12:
  "SHA256 [1, 0, 99, 1, 0, 0, 0, 0, 0, 0, 0, 2, 0, 0, 0, 0, 0, 0, 0] =
     [43, 6, 139, 137, 156, 150, 88, 154, 127, 49, 102, 51, 85, 126, 236, 7, 85, 248,
     181, 167, 191, 65, 195, 173, 229, 36, 76, 225, 246, 69, 172, 30]"
proof -
  have w: "be_words (sha_pad (map unat ([1, 0, 99, 1, 0, 0, 0, 0, 0, 0, 0, 2, 0, 0, 0, 0, 0, 0, 0] :: buffer))) =
     [16802561, 0, 2, 0, 128, 0, 0, 0, 0, 0, 0, 0, 0, 0, 0, 152]"
    by (simp add: sha_pad_eval)
  have c: "compress sha_H0
     [16802561, 0, 2, 0, 128, 0, 0, 0, 0, 0, 0, 0, 0, 0, 0, 152] =
     [721849225, 2627098778, 2133943859, 1434381319, 1442362791, 3208758189, 3844361441,
     4131761182]"
    by (simp add: sha_eval del: sha_round.simps schedule.simps)
  show ?thesis
    unfolding SHA256_def sha256_nat_def w by (simp add: c out_bytes_def del: One_nat_def)
qed

lemma SHA256_counters_21:
  "SHA256 [1, 0, 99, 2, 0, 0, 0, 0, 0, 0, 0, 1, 0, 0, 0, 0, 0, 0, 0] =
     [159, 129, 168, 205, 229, 161, 130, 6, 112, 14, 191, 202, 254, 227, 37, 134, 91,
     183, 62, 82, 206, 9, 209, 174, 20, 190, 68, 45, 212, 60, 215, 150]"
proof -
  have w: "be_words (sha_pad (map unat ([1, 0, 99, 2, 0, 0, 0, 0, 0, 0, 0, 1, 0, 0, 0, 0, 0, 0, 0] :: buffer))) =
     [16802562, 0, 1, 0, 128, 0, 0, 0, 0, 0, 0, 0, 0, 0, 0, 152]"
    by (simp add: sha_pad_eval)
  have c: "compress sha_H0
     [16802562, 0, 1, 0, 128, 0, 0, 0, 0, 0, 0, 0, 0, 0, 0, 152] =
     [2676074701, 3852567046, 1880014794, 4276299142, 1538735698, 3456749998, 348013613,
     3560757142]"
    by (simp add: sha_eval del: sha_round.simps schedule.simps)
  show ?thesis
    unfolding SHA256_def sha256_nat_def w by (simp add: c out_bytes_def del: One_nat_def)
qed

lemma SHA256_identities_AB:
  "SHA256 [1, 0, 99, 1, 0, 0, 0, 0, 0, 0, 0, 170, 1, 0, 0, 0, 0, 0, 0, 0, 187] =
     [86, 152, 142, 161, 6, 174, 35, 111, 171, 100, 138, 21, 182, 0, 51, 7, 29, 115,
     229, 214, 240, 143, 70, 59, 153, 20, 160, 37, 75, 21, 166, 55]"
proof -
  have w: "be_words (sha_pad (map unat ([1, 0, 99, 1, 0, 0, 0, 0, 0, 0, 0, 170, 1, 0, 0, 0, 0, 0, 0, 0,
                      187] :: buffer))) =
     [16802561, 0, 170, 16777216, 0, 3145728000, 0, 0, 0, 0, 0, 0, 0, 0, 0, 168]"
    by (simp add: sha_pad_eval)
  have c: "compress sha_H0
     [16802561, 0, 170, 16777216, 0, 3145728000, 0, 0, 0, 0, 0, 0, 0, 0, 0, 168] =
     [1452838561, 112075631, 2875492885, 3053466375, 494134742, 4035921467, 2568265765,
     1259710007]"
    by (simp add: sha_eval del: sha_round.simps schedule.simps)
  show ?thesis
    unfolding SHA256_def sha256_nat_def w by (simp add: c out_bytes_def del: One_nat_def)
qed

lemma SHA256_identities_BA:
  "SHA256 [1, 0, 99, 1, 0, 0, 0, 0, 0, 0, 0, 187, 1, 0, 0, 0, 0, 0, 0, 0, 170] =
     [219, 123, 130, 245, 56, 91, 29, 140, 139, 252, 152, 13, 102, 194, 62, 172, 217,
     43, 186, 37, 144, 45, 76, 227, 222, 4, 190, 11, 80, 21, 239, 106]"
proof -
  have w: "be_words (sha_pad (map unat ([1, 0, 99, 1, 0, 0, 0, 0, 0, 0, 0, 187, 1, 0, 0, 0, 0, 0, 0, 0,
                      170] :: buffer))) =
     [16802561, 0, 187, 16777216, 0, 2860515328, 0, 0, 0, 0, 0, 0, 0, 0, 0, 168]"
    by (simp add: sha_pad_eval)
  have c: "compress sha_H0
     [16802561, 0, 187, 16777216, 0, 2860515328, 0, 0, 0, 0, 0, 0, 0, 0, 0, 168] =
     [3682304757, 945495436, 2348587021, 1724006060, 3643521573, 2418887907, 3724852747,
     1343614826]"
    by (simp add: sha_eval del: sha_round.simps schedule.simps)
  show ?thesis
    unfolding SHA256_def sha256_nat_def w by (simp add: c out_bytes_def del: One_nat_def)
qed

section \<open>Properties of \<open>Proof.exists\<close>\<close>

subsection \<open>The bits of the digest\<close>

lemma shift_right_3_small: "x < 2 ^ 31 \<Longrightarrow> shift_right_3 x = int (x div 8)"
proof -
  assume a: "x < 2 ^ 31"
  then have t: "take_bit 32 x = x" by (intro take_bit_nat_eq_self) simp
  have "sint (word_of_nat x :: 32 word) = signed_take_bit 31 (int x)"
    by (simp add: sint_uint unsigned_of_nat take_bit_of_nat signed_take_bit_take_bit t)
  also have "\<dots> = int x"
    using a by (intro signed_take_bit_int_eq_self) simp_all
  finally show ?thesis
    by (simp add: shift_right_3_def sint_signed_drop_bit_eq drop_bit_eq_div zdiv_int)
qed

lemma bit_128: "bit (128 :: int) n \<longleftrightarrow> n = 7"
proof -
  have "(128 :: int) = 2 ^ 7" by simp
  then show ?thesis by (simp only: bit_exp_iff) auto
qed

lemma bit_mask: "bit (drop_bit (i mod 8) (push_bit 7 1) :: byte) r \<longleftrightarrow> r = 7 - i mod 8"
proof -
  have "i mod 8 < 8" by simp
  then show ?thesis
    by (auto simp: bit_drop_bit_eq bit_128)
qed

lemma bit_js: "j < 8 \<Longrightarrow> (0 < sint (push_bit j (ucast (b :: byte)) AND push_bit 7 (1 :: 32 word))) = bit b (7 - j)"
proof -
  assume j: "j < 8"
  let ?w = "push_bit j (ucast b) AND push_bit 7 (1 :: 32 word)"
  have e: "?w = (if bit b (7 - j) then 128 else 0)"
    using j by (intro bit_word_eqI) (auto simp: bit_and_iff bit_push_bit_iff bit_ucast_iff bit_128)
  show ?thesis unfolding e by simp
qed

lemma bit_js_128: "j < 8 \<Longrightarrow> (0 < sint (push_bit j (ucast (b :: byte)) AND (128 :: 32 word))) = bit b (7 - j)"
  using bit_js [of j b] by simp

lemma length_byte_bits: "length (byte_bits b) = 8"
  by (simp add: byte_bits_def)

lemma digest_bits_Cons: "digest_bits (b # d) = byte_bits b @ digest_bits d"
  by (simp add: digest_bits_def)

lemma nth_digest_bits:
  "i < 8 * length d \<Longrightarrow> digest_bits d ! i = bit (d ! (i div 8)) (7 - i mod 8)"
proof (induction d arbitrary: i)
  case Nil
  then show ?case by simp
next
  case (Cons b d)
  show ?case
  proof (cases "i < 8")
    case True
    then have "i \<in> {0, 1, 2, 3, 4, 5, 6, 7}" by auto
    then show ?thesis
      by (auto simp: digest_bits_def byte_bits_def nth_append)
  next
    case False
    then have "i - 8 < 8 * length d" using Cons.prems by simp
    from Cons.IH [OF this] False show ?thesis
      by (simp add: digest_bits_Cons length_byte_bits nth_append le_div_geq le_mod_geq)
  qed
qed

lemma length_digest_bits: "length (digest_bits d) = 8 * length d"
  by (induction d) (simp_all add: digest_bits_def byte_bits_def)

lemma hashToBits_digest_bits: "hashToBits sha256 key = digest_bits (sha256 key)"
proof (rule nth_equalityI)
  show "length (hashToBits sha256 key) = length (digest_bits (sha256 key))"
    by (simp add: hashToBits_def Let_def length_digest_bits)
next
  fix i assume "i < length (hashToBits sha256 key)"
  then have i: "i < 8 * length (sha256 key)" by (simp add: hashToBits_def Let_def)
  have m: "i mod 8 < 8" by simp
  show "hashToBits sha256 key ! i = digest_bits (sha256 key) ! i"
    using i by (simp add: hashToBits_def Let_def nth_digest_bits bit_js_128 [OF m] mult.commute del: upt_Suc)
qed

lemma bit_at_is_set: "bit_at bits i = is_set bits i"
  by (cases "i < length bits") (simp_all add: bit_at_def is_set_def Cons_nth_drop_Suc [symmetric])

subsection \<open>The packed prefix\<close>

lemma or_assign_small:
  "i div 8 < length buf \<Longrightarrow> i < 2 ^ 31 \<Longrightarrow>
   or_assign buf (shift_right_3 i) v = buf[i div 8 := (buf ! (i div 8)) OR v]"
  by (simp add: or_assign_def shift_right_3_small)

lemma position_eq:
  fixes r k j :: nat
  assumes "r < 8"
  shows "(8 * k + (7 - r) = j) = (k = j div 8 \<and> r = 7 - j mod 8)"
proof
  assume e: "8 * k + (7 - r) = j"
  have q: "7 - r < 8" by simp
  have "j div 8 = k" and "j mod 8 = 7 - r"
    unfolding e [symmetric] using q by simp_all
  then show "k = j div 8 \<and> r = 7 - j mod 8"
    using assms by simp
next
  assume a: "k = j div 8 \<and> r = 7 - j mod 8"
  have "j mod 8 < 8" by simp
  then have "7 - r = j mod 8" using a by linarith
  then show "8 * k + (7 - r) = j" using a by simp
qed

lemma served_step:
  assumes new: "new \<longleftrightarrow> old \<or> (b \<and> k = j div 8 \<and> r = 7 - j mod 8)"
    and old: "old \<longleftrightarrow> r < 8 \<and> p < j \<and> bits ! p"
    and p: "r < 8 \<Longrightarrow> (p = j) = (k = j div 8 \<and> r = 7 - j mod 8)"
    and b: "b = bits ! j"
    and r: "r < (8::nat)"
  shows "new \<longleftrightarrow> r < 8 \<and> p < Suc j \<and> bits ! p"
proof (cases "p = j")
  case True
  then show ?thesis using new old p [OF r] b r by auto
next
  case False
  then show ?thesis using new old p [OF r] b r by (auto simp: less_Suc_eq)
qed

lemma fold_bits:
  fixes bits :: "bool list"
  defines "step \<equiv> (\<lambda>i buf. if bits ! i
                       then or_assign buf (shift_right_3 i) (drop_bit (i mod 8) (push_bit 7 1))
                       else buf)"
  assumes n: "length bits < 2 ^ 31" and j: "j \<le> length bits"
  shows "length (fold step [0..<j] (replicate ((length bits + 7) div 8) 0)) = (length bits + 7) div 8
    \<and> (\<forall>k < (length bits + 7) div 8. \<forall>r.
          bit (fold step [0..<j] (replicate ((length bits + 7) div 8) 0) ! k) r
            \<longleftrightarrow> r < 8 \<and> 8 * k + (7 - r) < j \<and> bits ! (8 * k + (7 - r)))"
  using j
proof (induction j)
  case 0
  then show ?case by simp
next
  case (Suc j)
  let ?m = "(length bits + 7) div 8"
  let ?buf = "fold step [0..<j] (replicate ?m 0)"
  have jl: "j < length bits" using Suc.prems by simp
  then have IH: "length ?buf = ?m"
    "\<And>k r. k < ?m \<Longrightarrow> bit (?buf ! k) r \<longleftrightarrow> r < 8 \<and> 8 * k + (7 - r) < j \<and> bits ! (8 * k + (7 - r))"
    using Suc.IH by simp_all
  have f: "fold step [0..<Suc j] (replicate ?m 0) = step j ?buf" by simp
  have jm: "j div 8 < ?m" using jl by arith
  have j31: "j < 2 ^ 31" using jl n by simp
  have s: "step j ?buf = (if bits ! j
              then ?buf[j div 8 := (?buf ! (j div 8)) OR drop_bit (j mod 8) (push_bit 7 1)]
              else ?buf)"
    using or_assign_small [of j ?buf] jm j31 IH(1) by (simp add: step_def)
  have l: "length (step j ?buf) = ?m" unfolding s using IH(1) by simp
  have c: "bit (step j ?buf ! k) r \<longleftrightarrow> bit (?buf ! k) r \<or> (bits ! j \<and> k = j div 8 \<and> r = 7 - j mod 8)"
    if k: "k < ?m" for k r
  proof (cases "bits ! j \<and> k = j div 8")
    case True
    then have "step j ?buf ! k = (?buf ! k) OR drop_bit (j mod 8) (push_bit 7 1)"
      unfolding s using jm IH(1) by (simp only: if_True nth_list_update_eq)
    then show ?thesis using True by (simp only: bit_or_iff bit_mask) simp
  next
    case False
    then have "step j ?buf ! k = ?buf ! k"
      unfolding s by (cases "bits ! j") (simp_all only: if_True if_False nth_list_update_neq simp_thms)
    then show ?thesis using False by auto
  qed
  have b: "bit (step j ?buf ! k) r \<longleftrightarrow> r < 8 \<and> 8 * k + (7 - r) < Suc j \<and> bits ! (8 * k + (7 - r))"
    if k: "k < ?m" for k r
  proof (cases "r < 8")
    case False
    then show ?thesis by (auto dest: bit_imp_le_length)
  next
    case r: True
    note c1 = c [OF k, of r] and o1 = IH(2) [OF k, of r] and p1 = position_eq [of r k j]
    show ?thesis
      using c1 o1 p1 r by (intro served_step [where b = "bits ! j" and j = j]) simp_all
  qed
  show ?case
    unfolding f
  proof (intro conjI allI impI)
    show "length (step j ?buf) = ?m" by (rule l)
  next
    fix k r assume "k < ?m"
    then show "bit (step j ?buf ! k) r = (r < 8 \<and> 8 * k + (7 - r) < Suc j \<and> bits ! (8 * k + (7 - r)))"
      by (rule b)
  qed
qed

lemma bit_packed_prefix:
  assumes "k < (length bits + 7) div 8"
  shows "bit (packed_prefix bits ! k) r
           \<longleftrightarrow> r < 8 \<and> 8 * k + (7 - r) < length bits \<and> bits ! (8 * k + (7 - r))"
proof (cases "r < 8")
  case False
  then show ?thesis by (auto dest: bit_imp_le_length)
next
  case True
  let ?xs = "take 8 (drop (8 * k) bits @ replicate 8 False)"
  have l: "length ?xs = 8" by simp
  have p: "packed_prefix bits ! k = horner_sum of_bool 2 (rev ?xs)"
    using assms by (simp add: packed_prefix_def del: upt_Suc)
  have "rev ?xs ! r = ?xs ! (7 - r)"
    using True l by (simp add: rev_nth del: take_append)
  also have "\<dots> = (drop (8 * k) bits @ replicate 8 False) ! (7 - r)"
    by (rule nth_take) simp
  also have "\<dots> = (8 * k + (7 - r) < length bits \<and> bits ! (8 * k + (7 - r)))"
    by (auto simp: nth_append)
  finally have n: "rev ?xs ! r = (8 * k + (7 - r) < length bits \<and> bits ! (8 * k + (7 - r)))" .
  show ?thesis
    unfolding p bit_horner_sum_bit_word_iff using True l n by simp
qed

lemma boolToBuffer_in_range:
  assumes "length bits + 7 < 2 ^ 31"
  shows "boolToBuffer bits = Inr (packed_prefix bits)"
proof -
  let ?m = "(length bits + 7) div 8"
  let ?step = "\<lambda>i buf. if bits ! i
                 then or_assign buf (shift_right_3 i) (drop_bit (i mod 8) (push_bit 7 1))
                 else buf"
  let ?buf = "fold ?step [0..<length bits] (replicate ?m 0)"
  have n: "length bits < 2 ^ 31" using assms by simp
  have s: "shift_right_3 (length bits + 7) = int ?m"
    by (rule shift_right_3_small [OF assms])
  note inv = fold_bits [OF n le_refl]
  have "?buf = packed_prefix bits"
  proof (rule nth_equalityI)
    show "length ?buf = length (packed_prefix bits)"
      using inv by (simp add: packed_prefix_def)
  next
    fix k assume "k < length ?buf"
    then have k: "k < ?m" using inv by simp
    show "?buf ! k = packed_prefix bits ! k"
    proof (rule bit_word_eqI)
      fix r
      show "bit (?buf ! k) r = bit (packed_prefix bits ! k) r"
        using inv k bit_packed_prefix [OF k, of r] by simp
    qed
  qed
  then show ?thesis
    unfolding boolToBuffer_def Let_def s by simp
qed

subsection \<open>The walk\<close>

lemma hashInterior_in_range:
  "i < length (interiors ip) \<Longrightarrow> hashInterior sha256 ip i = Inr (node_hash sha256 (interiors ip ! i))"
  by (simp add: hashInterior_def node_hash_def hash_digest_def hash_update_def createHash_def)

lemma hashLeaf_in_range:
  "length (leaf_prefix (leaf ip)) + 7 < 2 ^ 31 \<Longrightarrow> hashLeaf sha256 ip = Inr (leaf_digest sha256 ip)"
  by (simp add: hashLeaf_def leaf_digest_def boolToBuffer_in_range writeIntLE4_def hash_digest_def
      hash_update_def createHash_def Let_def)

lemma hashEmpty_in_range:
  "length (empty_prefix (empty_node ip)) + 7 < 2 ^ 31 \<Longrightarrow> hashEmpty sha256 ip = Inr (empty_digest sha256 ip)"
  by (simp add: hashEmpty_def empty_digest_def boolToBuffer_in_range writeIntLE4_def hash_digest_def
      hash_update_def createHash_def Let_def)

lemma exists_loop_step:
  "i < length (interiors ip) \<Longrightarrow>
   exists_loop sha256 ip bits i e =
     (if e \<noteq> node_hash sha256 (interiors ip ! i) then Inl InvalidInteriorNode
      else exists_loop sha256 ip bits (Suc i) (expected_at sha256 ip bits (Suc i)))"
  by (subst exists_loop.simps) (simp add: hashInterior_in_range child_hash_def bit_at_is_set)

lemma exists_loop_done:
  "\<not> i < length (interiors ip) \<Longrightarrow> exists_loop sha256 ip bits i e = Inr (i, e)"
  by (subst exists_loop.simps) simp

lemma exists_loop_from:
  assumes "i \<le> length (interiors ip)"
  shows "exists_loop sha256 ip bits i (expected_at sha256 ip bits i) =
           (if list_all (\<lambda>j. expected_at sha256 ip bits j = node_hash sha256 (interiors ip ! j))
                        [i..<length (interiors ip)]
            then Inr (length (interiors ip), expected_at sha256 ip bits (length (interiors ip)))
            else Inl InvalidInteriorNode)"
  using assms
proof (induction "length (interiors ip) - i" arbitrary: i)
  case 0
  then have "i = length (interiors ip)" by simp
  then show ?case by (simp add: exists_loop_done)
next
  case (Suc d)
  then have lt: "i < length (interiors ip)" by simp
  have d: "d = length (interiors ip) - Suc i" using Suc.hyps(2) by simp
  have le: "Suc i \<le> length (interiors ip)" using lt by simp
  note IH = Suc.hyps(1) [OF d le]
  show ?case
    using lt IH by (simp add: exists_loop_step upt_conv_Cons)
qed

lemma exists_loop_all:
  "exists_loop sha256 ip bits 0 (node_hash sha256 (interiors ip ! 0)) =
     (if chain_ok sha256 ip bits
      then Inr (length (interiors ip), expected_at sha256 ip bits (length (interiors ip)))
      else Inl InvalidInteriorNode)"
  using exists_loop_from [of 0 ip sha256 bits] by (simp add: chain_ok_def)

lemma difference_nonempty: "lodash_difference xs ys \<noteq> [] \<longleftrightarrow> \<not> set xs \<subseteq> set ys"
  by (auto simp: lodash_difference_def filter_empty_conv)

lemma Proof_exists_result:
  assumes "key \<noteq> []"
    and "interiors (inclusionproof p) \<noteq> []"
    and "length (leaf_prefix (leaf (inclusionproof p))) + 7 < 2 ^ 31"
    and "length (empty_prefix (empty_node (inclusionproof p))) + 7 < 2 ^ 31"
  shows "Proof_exists sha256 p key =
      (let ip = inclusionproof p; path = digest_bits (sha256 key); n = length (interiors ip) in
       if \<not> chain_ok sha256 ip path then Inl InvalidInteriorNode
       else if expected_at sha256 ip path n = leaf_digest sha256 ip then
         (if \<not> set (take n path) \<subseteq> set (leaf_prefix (leaf ip))
          then Inl InvalidPrefixInLeafNode else Inr (leaf_key (leaf ip) = key))
       else if expected_at sha256 ip path n = empty_digest sha256 ip then
         (if \<not> set (take n path) \<subseteq> set (empty_prefix (empty_node ip))
          then Inl InvalidPrefixInEmptyNode else Inr False)
       else Inl NoCorrespondingNode)"
  using assms
  by (simp add: Proof_exists_def Proof_key_def Let_def hashInterior_in_range exists_loop_all
      hashLeaf_in_range hashEmpty_in_range hashToBits_digest_bits difference_nonempty)

text \<open>
  Claim C3. For a non-empty key and a proof with at least one interior node (and prefixes
  short enough to be packed and measured on signed 32-bit integers), \<open>exists\<close> computes
  the path of the key, the bits of \<open>sha256(key)\<close> with the most significant bit of each
  byte first, eight per digest byte: 256 bits with SHA-256. It starts from the hash of interior
  node 0 and throws 'invalid interior node' unless at every depth \<open>i\<close> the expected hash
  is the hash of interior node \<open>i\<close>, the next expected hash being the left child when
  bit \<open>i\<close> of the path is set and the right child otherwise. After the last interior node:
  if the expected hash is the leaf's hash the result is whether the queried key equals the
  leaf's key, if it is the empty node's hash the result is \<open>false\<close> (in both cases once
  the prefix test has not thrown), and if it is neither, \<open>exists\<close> throws 'no
  corresponding leaf/empty node'.
\<close>

theorem exists_walk:
  assumes "key \<noteq> []"
    and "interiors (inclusionproof p) \<noteq> []"
    and "length (leaf_prefix (leaf (inclusionproof p))) + 7 < 2 ^ 31"
    and "length (empty_prefix (empty_node (inclusionproof p))) + 7 < 2 ^ 31"
  shows "hashToBits sha256 key = digest_bits (sha256 key)
    \<and> length (digest_bits (sha256 key)) = 8 * length (sha256 key)
    \<and> length (hashToBits SHA256 key) = 256
    \<and> Proof_exists sha256 p key =
      (let ip = inclusionproof p; path = digest_bits (sha256 key); n = length (interiors ip) in
       if \<not> chain_ok sha256 ip path then Inl InvalidInteriorNode
       else if expected_at sha256 ip path n = leaf_digest sha256 ip then
         (if \<not> set (take n path) \<subseteq> set (leaf_prefix (leaf ip))
          then Inl InvalidPrefixInLeafNode else Inr (leaf_key (leaf ip) = key))
       else if expected_at sha256 ip path n = empty_digest sha256 ip then
         (if \<not> set (take n path) \<subseteq> set (empty_prefix (empty_node ip))
          then Inl InvalidPrefixInEmptyNode else Inr False)
       else Inl NoCorrespondingNode)"
proof (intro conjI)
  show "hashToBits sha256 key = digest_bits (sha256 key)"
    by (rule hashToBits_digest_bits)
next
  show "length (digest_bits (sha256 key)) = 8 * length (sha256 key)"
    by (rule length_digest_bits)
next
  show "length (hashToBits SHA256 key) = 256"
    by (simp add: hashToBits_digest_bits length_digest_bits length_SHA256)
next
  show "Proof_exists sha256 p key =
      (let ip = inclusionproof p; path = digest_bits (sha256 key); n = length (interiors ip) in
       if \<not> chain_ok sha256 ip path then Inl InvalidInteriorNode
       else if expected_at sha256 ip path n = leaf_digest sha256 ip then
         (if \<not> set (take n path) \<subseteq> set (leaf_prefix (leaf ip))
          then Inl InvalidPrefixInLeafNode else Inr (leaf_key (leaf ip) = key))
       else if expected_at sha256 ip path n = empty_digest sha256 ip then
         (if \<not> set (take n path) \<subseteq> set (empty_prefix (empty_node ip))
          then Inl InvalidPrefixInEmptyNode else Inr False)
       else Inl NoCorrespondingNode)"
    by (rule Proof_exists_result [OF assms])
qed

lemma digest_bits_127:
  "digest_bits [127] = [False, True, True, True, True, True, True, True]"
  by (simp add: digest_bits_def byte_bits_def bit_numeral_simps)

lemma digest_bits_255:
  "digest_bits [255] = [True, True, True, True, True, True, True, True]"
  by (simp add: digest_bits_def byte_bits_def bit_numeral_simps)

lemma six_clear_bits: "replicate 6 False = [False, False, False, False, False, False]"
  by (simp add: numeral_eq_Suc)

lemma packed_prefix_01: "packed_prefix [False, True] = [64]"
  by (simp add: packed_prefix_def upt_rec six_clear_bits)

lemma packed_prefix_10: "packed_prefix [True, False] = [128]"
  by (simp add: packed_prefix_def upt_rec six_clear_bits)

lemma le_bytes_4_2: "le_bytes 4 (Suc (Suc 0)) = [2, 0, 0, 0]"
  by (simp add: le_bytes_def upt_rec)

text \<open>
  The presence proof of depth two is accepted for its key \<open>[128]\<close>, whose digest is
  \<open>[127]\<close>: bit 0 of the path is not set and the walk goes right, bit 1 is set and it
  goes left, to the leaf's hash, and the leaf's key is the queried key. For the key
  \<open>[0]\<close>, whose digest is \<open>[255]\<close>, the walk goes left from the root node, to a hash that
  is not the hash of the second node.
\<close>

theorem exists_walk_witness:
  "[128 :: byte] \<noteq> [] \<and> interiors (inclusionproof presence_proof) \<noteq> []
   \<and> hashToBits flip_digest [128] = [False, True, True, True, True, True, True, True]
   \<and> chain_ok flip_digest (inclusionproof presence_proof) (digest_bits (flip_digest [128]))
   \<and> Proof_exists flip_digest presence_proof [128] = Inr True
   \<and> hashToBits flip_digest [0] = [True, True, True, True, True, True, True, True]
   \<and> Proof_exists flip_digest presence_proof [0] = Inl InvalidInteriorNode"
proof -
  have k: "[128 :: byte] \<noteq> []" and k0: "[0 :: byte] \<noteq> []" by simp_all
  have i: "interiors (inclusionproof presence_proof) \<noteq> []" by (simp add: presence_proof_def)
  have l: "length (leaf_prefix (leaf (inclusionproof presence_proof))) + 7 < 2 ^ 31"
    by (simp add: presence_proof_def presence_leaf_def)
  have e: "length (empty_prefix (empty_node (inclusionproof presence_proof))) + 7 < 2 ^ 31"
    by (simp add: presence_proof_def)
  have d: "flip_digest [128] = [127]" and d0: "flip_digest [0] = [255]"
    by (simp_all add: flip_digest_def)
  have c: "chain_ok flip_digest (inclusionproof presence_proof) (digest_bits (flip_digest [128]))"
    unfolding d
    by (simp add: digest_bits_127 presence_proof_def chain_ok_def node_hash_def child_hash_def
        is_set_def flip_digest_def upt_rec)
  have c0: "\<not> chain_ok flip_digest (inclusionproof presence_proof) (digest_bits (flip_digest [0]))"
    unfolding d0
    by (simp add: digest_bits_255 presence_proof_def chain_ok_def node_hash_def child_hash_def
        is_set_def flip_digest_def upt_rec)
  note w = exists_walk [OF k i l e, of flip_digest]
  note w0 = exists_walk [OF k0 i l e, of flip_digest]
  have b: "hashToBits flip_digest [128] = [False, True, True, True, True, True, True, True]"
    using w by (simp add: d digest_bits_127)
  have b0: "hashToBits flip_digest [0] = [True, True, True, True, True, True, True, True]"
    using w0 by (simp add: d0 digest_bits_255)
  have r: "Proof_exists flip_digest presence_proof [128] = Inr True"
    using w c unfolding d
    by (simp add: Let_def digest_bits_127 packed_prefix_01 le_bytes_4_2 presence_proof_def
        presence_leaf_def child_hash_def is_set_def leaf_digest_def flip_digest_def)
  have r0: "Proof_exists flip_digest presence_proof [0] = Inl InvalidInteriorNode"
    using w0 c0 by (simp add: Let_def)
  show ?thesis using k i b c r b0 r0 by simp
qed

text \<open>
  Claim C1 (the code departs from it). For every digest function, \<open>exists\<close> accepts the
  forged proof for the key \<open>[1]\<close>: the walk is one bit long and ends on the leaf's hash,
  the leaf declares the two-bit prefix \<open>1, 0\<close>, which is not the bit walked, and the
  result is \<open>true\<close> instead of the error 'invalid prefix in leaf node'. The test
  \<open>_.difference(bits.slice(0, i), prefix).length !== 0\<close> only asks that every walked bit
  value occurs somewhere in the prefix.
\<close>

theorem exists_accepts_wrong_prefix:
  "Proof_exists sha256 (forged_proof sha256) [1] = Inr True
   \<and> leaf_prefix (leaf (inclusionproof (forged_proof sha256))) \<noteq> take 1 (hashToBits sha256 [1])"
proof -
  have "Proof_exists sha256 (forged_proof sha256) [1] = Inr True"
    by (simp add: Let_def Proof_exists_result forged_proof_def forged_inclusion_def
        forged_leaf_def chain_ok_def node_hash_def child_hash_def leaf_digest_def
        packed_prefix_10 le_bytes_4_2 subset_iff)
  moreover have "leaf_prefix (leaf (inclusionproof (forged_proof sha256))) \<noteq> take 1 (hashToBits sha256 [1])"
  proof
    assume "leaf_prefix (leaf (inclusionproof (forged_proof sha256))) = take 1 (hashToBits sha256 [1])"
    then have "length [True, False] = length (take 1 (hashToBits sha256 [1]))"
      by (simp add: forged_proof_def forged_inclusion_def forged_leaf_def)
    then show False by simp
  qed
  ultimately show ?thesis by simp
qed

section \<open>Properties of \<open>Proof.verify\<close>\<close>

lemma verify_links_from:
  assumes "1 \<le> k" "k \<le> length (links p)"
  shows "verify_links lib (trusted_publics lib p k) (fl_to (links p ! (k - 1))) (drop k (links p)) =
           (case List.find (\<lambda>j. link_error lib p j \<noteq> None) [k..<length (links p)] of
              Some j \<Rightarrow> Inl (the (link_error lib p j))
            | None \<Rightarrow> Inr (fl_to (links p ! (length (links p) - 1))))"
  using assms
proof (induction "length (links p) - k" arbitrary: k)
  case 0
  then have "k = length (links p)" by simp
  then show ?case by simp
next
  case (Suc d)
  then have lt: "k < length (links p)" by simp
  have d: "d = length (links p) - Suc k" using Suc.hyps(2) by simp
  have le: "Suc k \<le> length (links p)" using lt by simp
  have k1: "1 \<le> Suc k" by simp
  note IH = Suc.hyps(1) [OF d k1 le]
  have dr: "drop k (links p) = links p ! k # drop (Suc k) (links p)"
    using lt by (simp add: Cons_nth_drop_Suc)
  show ?case
  proof (cases "link_error lib p k")
    case None
    then have lv: "link_verify lib (links p ! k) (trusted_publics lib p k) = None"
      and fr: "fl_from (links p ! k) = fl_to (links p ! (k - 1))"
      by (auto simp: link_error_def split: option.splits if_splits)
    show ?thesis
      using lt None IH Suc.prems(1) by (simp add: dr lv fr upt_conv_Cons)
  next
    case (Some e)
    show ?thesis
      using lt Some
      by (auto simp: dr upt_conv_Cons link_error_def split: option.splits if_splits)
  qed
qed

lemma verify_links_all:
  assumes "links p \<noteq> []"
  shows "verify_links lib (getServicePublics lib (sb_roster (latest p))) (fl_to (links p ! 0)) (tl (links p)) =
           (case first_link_error lib p of
              Some e \<Rightarrow> Inl e
            | None \<Rightarrow> Inr (fl_to (links p ! (length (links p) - 1))))"
proof -
  have "1 \<le> length (links p)" using assms by (cases "links p") auto
  from verify_links_from [OF _ this, of lib]
  have vl: "verify_links lib (getServicePublics lib (sb_roster (latest p))) (fl_to (links p ! 0)) (tl (links p)) =
           (case List.find (\<lambda>j. link_error lib p j \<noteq> None) [1..<length (links p)] of
              Some j \<Rightarrow> Inl (the (link_error lib p j))
            | None \<Rightarrow> Inr (fl_to (links p ! (length (links p) - 1))))"
    by (simp add: drop_Suc)
  show ?thesis
  proof (cases "List.find (\<lambda>j. link_error lib p j \<noteq> None) [1..<length (links p)]")
    case None
    then show ?thesis using vl by (simp add: first_link_error_def)
  next
    case (Some j)
    then have "link_error lib p j \<noteq> None" by (auto simp: find_Some_iff)
    then obtain e where "link_error lib p j = Some e" by auto
    then show ?thesis using vl Some by (simp add: first_link_error_def)
  qed
qed

lemma Proof_verify_result:
  assumes "prechecks lib sha256 p" and "links p \<noteq> []"
  shows "Proof_verify lib sha256 p genesisID =
     Inr (if fl_to (links p ! 0) \<noteq> genesisID then Some FirstLinkNotGenesis
          else case first_link_error lib p of
                 Some e \<Rightarrow> Some e
               | None \<Rightarrow>
                   if fl_to (links p ! (length (links p) - 1)) \<noteq> sb_hash (latest p)
                   then Some LastLinkNotLatest else None)"
proof -
  obtain l0 rest where l: "links p = l0 # rest" using assms(2) by (cases "links p") auto
  have vl: "verify_links lib (getServicePublics lib (sb_roster (latest p))) (fl_to l0) rest =
           (case first_link_error lib p of
              Some e \<Rightarrow> Inl e
            | None \<Rightarrow> Inr (fl_to (links p ! (length (links p) - 1))))"
    using verify_links_all [OF assms(2), of lib] by (simp add: l)
  show ?thesis
  proof (cases "fl_to l0 = genesisID")
    case True
    show ?thesis
      using assms(1) vl [unfolded True] True
      by (simp add: Proof_verify_def prechecks_def hashInterior_in_range Let_def l
          split: option.splits)
  next
    case False
    then show ?thesis
      using assms(1)
      by (simp add: Proof_verify_def prechecks_def hashInterior_in_range Let_def l)
  qed
qed

lemma first_link_error_None:
  "first_link_error lib p = None \<longleftrightarrow>
     (\<forall>k. 1 \<le> k \<and> k < length (links p) \<longrightarrow>
          link_verify lib (links p ! k) (trusted_publics lib p k) = None
        \<and> fl_from (links p ! k) = fl_to (links p ! (k - 1)))"
proof -
  have le: "link_error lib p k = None \<longleftrightarrow>
        link_verify lib (links p ! k) (trusted_publics lib p k) = None
        \<and> fl_from (links p ! k) = fl_to (links p ! (k - 1))" for k
    by (auto simp: link_error_def split: option.splits)
  have "first_link_error lib p = None \<longleftrightarrow>
        List.find (\<lambda>k. link_error lib p k \<noteq> None) [1..<length (links p)] = None"
  proof (cases "List.find (\<lambda>k. link_error lib p k \<noteq> None) [1..<length (links p)]")
    case None
    then show ?thesis by (simp add: first_link_error_def)
  next
    case (Some j)
    then have "link_error lib p j \<noteq> None" by (auto simp: find_Some_iff)
    then show ?thesis using Some by (simp add: first_link_error_def)
  qed
  also have "\<dots> \<longleftrightarrow> (\<forall>k. 1 \<le> k \<and> k < length (links p) \<longrightarrow> link_error lib p k = None)"
    by (auto simp: find_None_iff)
  finally show ?thesis by (simp add: le)
qed

lemma first_link_error_not_other:
  "first_link_error lib p \<noteq> Some FirstLinkNotGenesis"
  "first_link_error lib p \<noteq> Some LastLinkNotLatest"
  by (auto simp: first_link_error_def link_error_def split: option.splits if_splits)


lemma toy_prechecks:
  "prechecks toy_lib id_digest rotation_proof"
  "prechecks toy_lib id_digest stale_signer_proof"
  "prechecks toy_lib id_digest from_genesis_proof"
  by (simp_all add: prechecks_def toy_lib_def rotation_proof_def stale_signer_proof_def
      from_genesis_proof_def toy_latest_def toy_inclusion_def node_hash_def id_digest_def)

text \<open>
  Claim C4. Once the checks before the links have passed and the first link points to the
  genesis block, \<open>verify\<close> walks \<open>links[1..]\<close> in order and returns the error of the
  first link whose signature does not verify against the service keys in effect for it,
  or that does not start at the block the previous link reaches; when no link fails it
  returns an error unless the last block reached is the latest block. It succeeds
  exactly when every link passes both checks and the last link reaches the latest block.
  The keys in effect for link 1 are those of the latest block's roster; the keys in effect
  for link \<open>k + 1\<close> are those of the roster carried by link \<open>k\<close>, when it carries one,
  and those in effect for link \<open>k\<close> otherwise: a link's own signature is checked before
  the roster it carries takes effect.
\<close>

theorem verify_link_walk:
  assumes "prechecks lib sha256 p" and "links p \<noteq> []" and "fl_to (links p ! 0) = genesisID"
  shows "Proof_verify lib sha256 p genesisID =
           Inr (case first_link_error lib p of
                  Some e \<Rightarrow> Some e
                | None \<Rightarrow>
                    if fl_to (links p ! (length (links p) - 1)) \<noteq> sb_hash (latest p)
                    then Some LastLinkNotLatest else None)
       \<and> (Proof_verify lib sha256 p genesisID = Inr None \<longleftrightarrow>
            (\<forall>k. 1 \<le> k \<and> k < length (links p) \<longrightarrow>
                 link_verify lib (links p ! k) (trusted_publics lib p k) = None
               \<and> fl_from (links p ! k) = fl_to (links p ! (k - 1)))
            \<and> fl_to (links p ! (length (links p) - 1)) = sb_hash (latest p))
       \<and> trusted_publics lib p 1 = getServicePublics lib (sb_roster (latest p))
       \<and> (\<forall>k. 1 \<le> k \<longrightarrow>
            trusted_publics lib p (Suc k) =
              (case fl_newRoster (links p ! k) of
                 Some roster \<Rightarrow> getServicePublics lib roster
               | None \<Rightarrow> trusted_publics lib p k))"
proof -
  have r: "Proof_verify lib sha256 p genesisID =
           Inr (case first_link_error lib p of
                  Some e \<Rightarrow> Some e
                | None \<Rightarrow>
                    if fl_to (links p ! (length (links p) - 1)) \<noteq> sb_hash (latest p)
                    then Some LastLinkNotLatest else None)"
    using Proof_verify_result [OF assms(1,2), of genesisID] assms(3) by simp
  have s: "Proof_verify lib sha256 p genesisID = Inr None \<longleftrightarrow>
            first_link_error lib p = None
            \<and> fl_to (links p ! (length (links p) - 1)) = sb_hash (latest p)"
    unfolding r by (cases "first_link_error lib p") auto
  have t: "\<forall>k. 1 \<le> k \<longrightarrow>
            trusted_publics lib p (Suc k) =
              (case fl_newRoster (links p ! k) of
                 Some roster \<Rightarrow> getServicePublics lib roster
               | None \<Rightarrow> trusted_publics lib p k)"
    by simp
  have u: "trusted_publics lib p 1 = getServicePublics lib (sb_roster (latest p))"
    by simp
  show ?thesis
    using r s t u unfolding first_link_error_None by blast
qed

text \<open>
  On the chain with a roster change on link 1, \<open>verify\<close> succeeds when link 2 is signed
  by the new roster, and returns 'invalid forward link signature' when link 2 is signed by
  the roster that link 1 replaced.
\<close>

theorem verify_link_walk_witness:
  "prechecks toy_lib id_digest rotation_proof
   \<and> fl_to (links rotation_proof ! 0) = [10]
   \<and> trusted_publics toy_lib rotation_proof 1 = [100]
   \<and> trusted_publics toy_lib rotation_proof 2 = [101]
   \<and> Proof_verify toy_lib id_digest rotation_proof [10] = Inr None
   \<and> Proof_verify toy_lib id_digest stale_signer_proof [10]
       = Inr (Some (InvalidForwardLinkSignature ''bad signature''))"
proof -
  have l1: "links rotation_proof \<noteq> []" and g1: "fl_to (links rotation_proof ! 0) = [10]"
    by (simp_all add: rotation_proof_def)
  have l2: "links stale_signer_proof \<noteq> []" and g2: "fl_to (links stale_signer_proof ! 0) = [10]"
    by (simp_all add: stale_signer_proof_def)
  have two: "(2::nat) = Suc 1" by simp
  have t1: "trusted_publics toy_lib rotation_proof 1 = [100]"
    by (simp add: rotation_proof_def toy_lib_def toy_latest_def)
  have t2: "trusted_publics toy_lib rotation_proof 2 = [101]"
    unfolding two by (simp add: rotation_proof_def toy_lib_def)
  have s1: "trusted_publics toy_lib stale_signer_proof 1 = [100]"
    by (simp add: stale_signer_proof_def toy_lib_def toy_latest_def)
  have s2: "trusted_publics toy_lib stale_signer_proof 2 = [101]"
    unfolding two by (simp add: stale_signer_proof_def toy_lib_def)
  have e1: "first_link_error toy_lib rotation_proof = None"
    using t1 t2
    by (simp add: first_link_error_def link_error_def upt_rec rotation_proof_def toy_lib_def)
  have e2: "first_link_error toy_lib stale_signer_proof
              = Some (InvalidForwardLinkSignature ''bad signature'')"
    using s1 s2
    by (simp add: first_link_error_def link_error_def upt_rec stale_signer_proof_def toy_lib_def)
  have a: "Proof_verify toy_lib id_digest rotation_proof [10] = Inr None"
    using verify_link_walk [OF toy_prechecks(1) l1 g1] e1
    by (simp add: rotation_proof_def toy_latest_def)
  have b: "Proof_verify toy_lib id_digest stale_signer_proof [10]
       = Inr (Some (InvalidForwardLinkSignature ''bad signature''))"
    using verify_link_walk [OF toy_prechecks(2) l2 g2] e2 by simp
  show ?thesis using toy_prechecks(1) g1 t1 t2 a b by simp
qed





section \<open>Properties of the instruction and transaction hashes\<close>

lemma forEach_update_concat:
  assumes "\<And>x h. f x h = h @ g x"
  shows "forEach_update f xs h = h @ concat (map g xs)"
  unfolding forEach_update_def
  by (induction xs arbitrary: h) (simp_all add: assms)

lemma arg_update_bytes: "arg_update arg h = h @ arg_bytes arg"
  by (simp add: arg_update_def arg_bytes_def hash_update_def Long_fromNumber_def Let_def)

lemma counter_update_bytes: "counter_update sc h = h @ Long_toBytesLE sc"
  by (simp add: counter_update_def hash_update_def)

lemma identity_update_bytes: "identity_update si h = h @ identity_bytes si"
  by (simp add: identity_update_def identity_bytes_def hash_update_def Long_fromNumber_def Let_def)

lemma hash_switch_typed:
  assumes "Instruction_type instr = Inr t"
  shows "hash_switch instr t h = (h @ utf8 (contract_of instr), args_of instr)"
  using assms
  by (auto simp: Instruction_type_def hash_switch_def contract_of_def args_of_def hash_update_def
      split: if_splits option.splits)

lemma Instruction_hash_typed:
  assumes "Instruction_type instr = Inr t"
  shows "Instruction_hash sha256 instr =
     Inr (sha256 (instanceID instr @ [word_of_nat t] @ utf8 (contract_of instr)
                  @ concat (map arg_bytes (args_of instr))
                  @ concat (map Long_toBytesLE (signerCounter instr))
                  @ concat (map identity_bytes (signerIdentities instr))))"
  using assms
  by (simp add: Instruction_hash_def Let_def hash_switch_typed hash_update_def createHash_def
      hash_digest_def forEach_update_concat [of arg_update arg_bytes, OF arg_update_bytes]
      forEach_update_concat [of counter_update Long_toBytesLE, OF counter_update_bytes]
      forEach_update_concat [of identity_update identity_bytes, OF identity_update_bytes])

lemma Instruction_hash_untyped:
  assumes "Instruction_type instr = Inl e"
  shows "Instruction_hash sha256 instr = Inl e"
  using assms by (simp add: Instruction_hash_def Let_def)

lemma Instruction_type_signatures:
  "Instruction_type (instr\<lparr>signatures := sigs\<rparr>) = Instruction_type instr"
  by (simp add: Instruction_type_def)

lemma Instruction_hash_signatures:
  "Instruction_hash sha256 (instr\<lparr>signatures := sigs\<rparr>) = Instruction_hash sha256 instr"
  by (cases "Instruction_type instr")
     (simp_all add: Instruction_hash_untyped Instruction_hash_typed Instruction_type_signatures
        contract_of_def args_of_def split: option.splits)

lemma deriveId_signatures_concat:
  assumes "\<forall>sig \<in> set sigs. length sig < 2 ^ 32"
  shows "deriveId_signatures sigs h = Inr (h @ concat (map signature_bytes sigs))"
  using assms
  by (induction sigs arbitrary: h)
     (simp_all add: writeUInt32LE_def hash_update_def signature_bytes_def)

lemma Instruction_deriveId_result:
  assumes "Instruction_hash sha256 instr = Inr ih"
    and "length (signatures instr) < 2 ^ 32"
    and "\<forall>sig \<in> set (signatures instr). length sig < 2 ^ 32"
  shows "Instruction_deriveId sha256 instr what =
           Inr (sha256 (ih @ le_bytes 4 (length (signatures instr))
                        @ concat (map signature_bytes (signatures instr)) @ utf8 what))"
  using assms
  by (simp add: Instruction_deriveId_def Let_def writeUInt32LE_def deriveId_signatures_concat
      hash_update_def createHash_def hash_digest_def)

lemma hash_instructions_concat:
  assumes "map (Instruction_hash sha256) instrs = map Inr hs"
  shows "hash_instructions sha256 instrs h = Inr (h @ concat hs)"
  using assms
  by (induction instrs arbitrary: h hs) (auto simp: hash_update_def)

lemma spawn_instr_type: "Instruction_type (spawn_instr args counters identities) = Inr 0"
  by (simp add: Instruction_type_def spawn_instr_def)

lemma spawn_instr_hash:
  "Instruction_hash sha256 (spawn_instr args counters identities) =
     Inr (sha256 ([1, 0, 99] @ concat (map arg_bytes args) @ concat (map Long_toBytesLE counters)
                  @ concat (map identity_bytes identities)))"
  unfolding Instruction_hash_typed [OF spawn_instr_type]
  by (simp add: spawn_instr_def contract_of_def args_of_def utf8_def)

lemma arg_bytes_a: "arg_bytes arg_a = [1, 0, 0, 0, 0, 0, 0, 0, 97, 1, 0, 0, 0, 0, 0, 0, 0, 1]"
  by (simp add: arg_bytes_def arg_a_def utf8_def Long_toBytesLE_def upt_rec)

lemma arg_bytes_b: "arg_bytes arg_b = [1, 0, 0, 0, 0, 0, 0, 0, 98, 1, 0, 0, 0, 0, 0, 0, 0, 2]"
  by (simp add: arg_bytes_def arg_b_def utf8_def Long_toBytesLE_def upt_rec)

lemma counter_bytes_1_2:
  "Long_toBytesLE 1 = [1, 0, 0, 0, 0, 0, 0, 0]" "Long_toBytesLE 2 = [2, 0, 0, 0, 0, 0, 0, 0]"
  by (simp_all add: Long_toBytesLE_def upt_rec)

lemma identity_bytes_A_B:
  "identity_bytes wrapper_A = [1, 0, 0, 0, 0, 0, 0, 0, 170]"
  "identity_bytes wrapper_B = [1, 0, 0, 0, 0, 0, 0, 0, 187]"
  by (simp_all add: identity_bytes_def wrapper_A_def wrapper_B_def Long_toBytesLE_def upt_rec)

lemma SHA256_spawn_hashes:
  "Instruction_hash SHA256 (spawn_instr [arg_a, arg_b] [] []) =
     Inr [158, 34, 100, 109, 4, 90, 24, 113, 252, 230, 6, 12, 218, 99, 208, 14, 115, 108,
          245, 230, 31, 235, 43, 15, 136, 119, 158, 217, 30, 214, 31, 18]"
  "Instruction_hash SHA256 (spawn_instr [arg_b, arg_a] [] []) =
     Inr [88, 165, 241, 109, 251, 53, 92, 35, 160, 130, 103, 146, 110, 20, 235, 17, 188, 133,
          133, 124, 90, 219, 97, 64, 122, 57, 55, 86, 5, 214, 83, 239]"
  "Instruction_hash SHA256 (spawn_instr [] [1, 2] []) =
     Inr [43, 6, 139, 137, 156, 150, 88, 154, 127, 49, 102, 51, 85, 126, 236, 7, 85, 248, 181,
          167, 191, 65, 195, 173, 229, 36, 76, 225, 246, 69, 172, 30]"
  "Instruction_hash SHA256 (spawn_instr [] [2, 1] []) =
     Inr [159, 129, 168, 205, 229, 161, 130, 6, 112, 14, 191, 202, 254, 227, 37, 134, 91, 183,
          62, 82, 206, 9, 209, 174, 20, 190, 68, 45, 212, 60, 215, 150]"
  "Instruction_hash SHA256 (spawn_instr [] [] [wrapper_A, wrapper_B]) =
     Inr [86, 152, 142, 161, 6, 174, 35, 111, 171, 100, 138, 21, 182, 0, 51, 7, 29, 115, 229,
          214, 240, 143, 70, 59, 153, 20, 160, 37, 75, 21, 166, 55]"
  "Instruction_hash SHA256 (spawn_instr [] [] [wrapper_B, wrapper_A]) =
     Inr [219, 123, 130, 245, 56, 91, 29, 140, 139, 252, 152, 13, 102, 194, 62, 172, 217, 43,
          186, 37, 144, 45, 76, 227, 222, 4, 190, 11, 80, 21, 239, 106]"
  by (simp_all add: spawn_instr_hash arg_bytes_a arg_bytes_b counter_bytes_1_2 identity_bytes_A_B
      SHA256_args_ab SHA256_args_ba SHA256_counters_12 SHA256_counters_21 SHA256_identities_AB
      SHA256_identities_BA)

text \<open>
  Claim C6. The hash of an instruction with a type is the digest of its instance ID, its
  type tag, its contract ID, then its arguments, its counters and its signer identities,
  each list in its order. It is a function of these fields alone: the signatures do not
  enter it. With SHA-256, exchanging the two arguments of the spawn instruction with the
  arguments \<open>a, b\<close> changes its hash, and so does exchanging the two counters, or the
  two identities, of the spawn instructions that carry them.
\<close>

theorem instruction_hash_order:
  "(Instruction_type instr = Inr t \<longrightarrow>
      Instruction_hash sha256 instr =
        Inr (sha256 (instanceID instr @ [word_of_nat t] @ utf8 (contract_of instr)
                     @ concat (map arg_bytes (args_of instr))
                     @ concat (map Long_toBytesLE (signerCounter instr))
                     @ concat (map identity_bytes (signerIdentities instr)))))
   \<and> Instruction_hash sha256 (instr\<lparr>signatures := sigs\<rparr>) = Instruction_hash sha256 instr
   \<and> Instruction_hash SHA256 (spawn_instr [arg_a, arg_b] [] [])
       \<noteq> Instruction_hash SHA256 (spawn_instr [arg_b, arg_a] [] [])
   \<and> Instruction_hash SHA256 (spawn_instr [] [1, 2] [])
       \<noteq> Instruction_hash SHA256 (spawn_instr [] [2, 1] [])
   \<and> Instruction_hash SHA256 (spawn_instr [] [] [wrapper_A, wrapper_B])
       \<noteq> Instruction_hash SHA256 (spawn_instr [] [] [wrapper_B, wrapper_A])"
proof (intro conjI impI)
  assume "Instruction_type instr = Inr t"
  then show "Instruction_hash sha256 instr =
        Inr (sha256 (instanceID instr @ [word_of_nat t] @ utf8 (contract_of instr)
                     @ concat (map arg_bytes (args_of instr))
                     @ concat (map Long_toBytesLE (signerCounter instr))
                     @ concat (map identity_bytes (signerIdentities instr))))"
    by (rule Instruction_hash_typed)
next
  show "Instruction_hash sha256 (instr\<lparr>signatures := sigs\<rparr>) = Instruction_hash sha256 instr"
    by (rule Instruction_hash_signatures)
next
  show "Instruction_hash SHA256 (spawn_instr [arg_a, arg_b] [] [])
       \<noteq> Instruction_hash SHA256 (spawn_instr [arg_b, arg_a] [] [])"
    unfolding SHA256_spawn_hashes by simp
  show "Instruction_hash SHA256 (spawn_instr [] [1, 2] [])
       \<noteq> Instruction_hash SHA256 (spawn_instr [] [2, 1] [])"
    unfolding SHA256_spawn_hashes by simp
  show "Instruction_hash SHA256 (spawn_instr [] [] [wrapper_A, wrapper_B])
       \<noteq> Instruction_hash SHA256 (spawn_instr [] [] [wrapper_B, wrapper_A])"
    unfolding SHA256_spawn_hashes by simp
qed

text \<open>
  The spawn instruction with the arguments \<open>a, b\<close> has the type 0; its hash is the digest
  of the 39 bytes of its instance ID, type tag, contract ID and two arguments.
\<close>

theorem instruction_hash_order_witness:
  "Instruction_type (spawn_instr [arg_a, arg_b] [] []) = Inr 0
   \<and> Instruction_hash id_digest (spawn_instr [arg_a, arg_b] [] []) =
       Inr ([1, 0, 99] @ [1, 0, 0, 0, 0, 0, 0, 0, 97, 1, 0, 0, 0, 0, 0, 0, 0, 1]
                       @ [1, 0, 0, 0, 0, 0, 0, 0, 98, 1, 0, 0, 0, 0, 0, 0, 0, 2])
   \<and> Instruction_hash SHA256 (spawn_instr [arg_a, arg_b] [] []) =
       Inr [158, 34, 100, 109, 4, 90, 24, 113, 252, 230, 6, 12, 218, 99, 208, 14, 115, 108,
            245, 230, 31, 235, 43, 15, 136, 119, 158, 217, 30, 214, 31, 18]"
proof -
  have a: "Instruction_hash id_digest (spawn_instr [arg_a, arg_b] [] []) =
       Inr ([1, 0, 99] @ [1, 0, 0, 0, 0, 0, 0, 0, 97, 1, 0, 0, 0, 0, 0, 0, 0, 1]
                       @ [1, 0, 0, 0, 0, 0, 0, 0, 98, 1, 0, 0, 0, 0, 0, 0, 0, 2])"
    using instruction_hash_order [of "spawn_instr [arg_a, arg_b] [] []" 0 id_digest]
      spawn_instr_type [of "[arg_a, arg_b]" "[]" "[]"]
    by (simp add: spawn_instr_def contract_of_def args_of_def utf8_def arg_bytes_a arg_bytes_b
        id_digest_def)
  have b: "Instruction_hash SHA256 (spawn_instr [arg_a, arg_b] [] []) =
       Inr [158, 34, 100, 109, 4, 90, 24, 113, 252, 230, 6, 12, 218, 99, 208, 14, 115, 108,
            245, 230, 31, 235, 43, 15, 136, 119, 158, 217, 30, 214, 31, 18]"
    using instruction_hash_order [of "spawn_instr [arg_a, arg_b] [] []" 0 SHA256]
      spawn_instr_type [of "[arg_a, arg_b]" "[]" "[]"]
    by (simp add: spawn_instr_def contract_of_def args_of_def utf8_def arg_bytes_a arg_bytes_b
        SHA256_args_ab)
  show ?thesis
    using a b spawn_instr_type by simp
qed

section \<open>Properties of \<open>ClientTransaction.hash\<close> and \<open>signWith\<close>\<close>

lemma ClientTransaction_hash_concat:
  assumes "map (Instruction_hash sha256) (instructions tx) = map Inr hs"
  shows "ClientTransaction_hash sha256 tx = Inr (sha256 (concat hs))"
  using hash_instructions_concat [OF assms, of createHash]
  by (simp add: ClientTransaction_hash_def createHash_def hash_digest_def)

lemma signWith_instructions:
  assumes "length signers = length instrs"
  shows "map (\<lambda>(instr, i). Instruction_signWith ctxHash (signers ! i) instr)
             (zip instrs [0..<length instrs])
         = map (\<lambda>(instr, ss). instr\<lparr>signatures := map (\<lambda>s. signer_sign s ctxHash) ss\<rparr>)
               (zip instrs signers)"
  using assms
  by (intro nth_equalityI) (simp_all add: Instruction_signWith_def)

lemma ClientTransaction_signWith_result:
  assumes "ClientTransaction_hash sha256 tx = Inr ctxHash"
    and "length signers = length (instructions tx)"
  shows "ClientTransaction_signWith sha256 tx signers =
           Inr (tx\<lparr>instructions :=
                     map (\<lambda>(instr, ss). instr\<lparr>signatures := map (\<lambda>s. signer_sign s ctxHash) ss\<rparr>)
                         (zip (instructions tx) signers)\<rparr>)"
  using assms
  by (simp add: ClientTransaction_signWith_def signWith_instructions)

text \<open>
  Claim C5. When every instruction has a hash, the transaction hash is the digest of the
  instruction hashes concatenated in the order of the instructions. \<open>signWith\<close> throws
  when the number of signer groups is not the number of instructions ('need same number
  of signers as instructions', unless hashing the transaction has already thrown).
  Otherwise, for a transaction with the hash \<open>ctxHash\<close>, it leaves the transaction with as
  many instructions, each of them changed in its signatures only, which are the
  signatures of \<open>ctxHash\<close> by the signers of its group, in the group's order.
\<close>

theorem transaction_hash_and_signWith:
  "(map (Instruction_hash sha256) (instructions tx) = map Inr hs
      \<longrightarrow> ClientTransaction_hash sha256 tx = Inr (sha256 (concat hs)))
   \<and> (length signers \<noteq> length (instructions tx)
      \<longrightarrow> ClientTransaction_signWith sha256 tx signers =
            Inl (case ClientTransaction_hash sha256 tx of
                   Inl e \<Rightarrow> e
                 | Inr ctxHash \<Rightarrow> NeedSameNumberOfSigners))
   \<and> (length signers = length (instructions tx) \<and> ClientTransaction_hash sha256 tx = Inr ctxHash
      \<longrightarrow> (\<exists>tx'. ClientTransaction_signWith sha256 tx signers = Inr tx'
              \<and> length (instructions tx') = length (instructions tx)
              \<and> (\<forall>i < length (instructions tx).
                    instructions tx' ! i =
                      (instructions tx ! i)
                        \<lparr>signatures := map (\<lambda>s. signer_sign s ctxHash) (signers ! i)\<rparr>)))"
proof (intro conjI impI)
  assume "map (Instruction_hash sha256) (instructions tx) = map Inr hs"
  then show "ClientTransaction_hash sha256 tx = Inr (sha256 (concat hs))"
    by (rule ClientTransaction_hash_concat)
next
  assume "length signers \<noteq> length (instructions tx)"
  then show "ClientTransaction_signWith sha256 tx signers =
            Inl (case ClientTransaction_hash sha256 tx of
                   Inl e \<Rightarrow> e
                 | Inr ctxHash \<Rightarrow> NeedSameNumberOfSigners)"
    by (simp add: ClientTransaction_signWith_def split: sum.splits)
next
  assume a: "length signers = length (instructions tx) \<and> ClientTransaction_hash sha256 tx = Inr ctxHash"
  then have r: "ClientTransaction_signWith sha256 tx signers =
           Inr (tx\<lparr>instructions :=
                     map (\<lambda>(instr, ss). instr\<lparr>signatures := map (\<lambda>s. signer_sign s ctxHash) ss\<rparr>)
                         (zip (instructions tx) signers)\<rparr>)"
    using ClientTransaction_signWith_result [of sha256 tx ctxHash signers] by simp
  show "\<exists>tx'. ClientTransaction_signWith sha256 tx signers = Inr tx'
              \<and> length (instructions tx') = length (instructions tx)
              \<and> (\<forall>i < length (instructions tx).
                    instructions tx' ! i =
                      (instructions tx ! i)
                        \<lparr>signatures := map (\<lambda>s. signer_sign s ctxHash) (signers ! i)\<rparr>)"
    unfolding r using a by simp
qed

text \<open>
  The transaction of two spawn instructions, with the digest that returns its input: its
  hash is the two instruction hashes in order; signed by the groups \<open>[A]\<close> and \<open>[B]\<close>,
  both instructions carry a signature of that hash, not of their own hash; signed by one
  group only, \<open>signWith\<close> throws.
\<close>

theorem transaction_hash_and_signWith_witness:
  "map (Instruction_hash id_digest) (instructions two_instr_tx)
     = map Inr [[1, 0, 99], [1, 0, 99, 1, 0, 0, 0, 0, 0, 0, 0, 97, 1, 0, 0, 0, 0, 0, 0, 0, 1]]
   \<and> ClientTransaction_hash id_digest two_instr_tx
     = Inr [1, 0, 99, 1, 0, 99, 1, 0, 0, 0, 0, 0, 0, 0, 97, 1, 0, 0, 0, 0, 0, 0, 0, 1]
   \<and> map_sum id (\<lambda>tx'. map signatures (instructions tx'))
        (ClientTransaction_signWith id_digest two_instr_tx [[signer_A], [signer_B]])
     = Inr [[[10, 1, 0, 99, 1, 0, 99, 1, 0, 0, 0, 0, 0, 0, 0, 97, 1, 0, 0, 0, 0, 0, 0, 0, 1]],
            [[11, 1, 0, 99, 1, 0, 99, 1, 0, 0, 0, 0, 0, 0, 0, 97, 1, 0, 0, 0, 0, 0, 0, 0, 1]]]
   \<and> ClientTransaction_signWith id_digest two_instr_tx [[signer_A]] = Inl NeedSameNumberOfSigners"
proof -
  let ?ctx = "[1, 0, 99, 1, 0, 99, 1, 0, 0, 0, 0, 0, 0, 0, 97, 1, 0, 0, 0, 0, 0, 0, 0, 1] :: buffer"
  have m: "map (Instruction_hash id_digest) (instructions two_instr_tx)
     = map Inr [[1, 0, 99], [1, 0, 99, 1, 0, 0, 0, 0, 0, 0, 0, 97, 1, 0, 0, 0, 0, 0, 0, 0, 1]]"
    by (simp add: two_instr_tx_def spawn_instr_hash arg_bytes_a id_digest_def)
  note t = transaction_hash_and_signWith [of id_digest two_instr_tx
      "[[1, 0, 99], [1, 0, 99, 1, 0, 0, 0, 0, 0, 0, 0, 97, 1, 0, 0, 0, 0, 0, 0, 0, 1]]"
      "[[signer_A], [signer_B]]" ?ctx]
  have h: "ClientTransaction_hash id_digest two_instr_tx = Inr ?ctx"
    using t m by (simp add: id_digest_def)
  have n: "length [[signer_A], [signer_B]] = length (instructions two_instr_tx)"
    by (simp add: two_instr_tx_def)
  from t h n obtain tx' where
    r: "ClientTransaction_signWith id_digest two_instr_tx [[signer_A], [signer_B]] = Inr tx'"
    and l: "length (instructions tx') = length (instructions two_instr_tx)"
    and s: "\<forall>i < length (instructions two_instr_tx).
              instructions tx' ! i =
                (instructions two_instr_tx ! i)
                  \<lparr>signatures := map (\<lambda>s. signer_sign s ?ctx) ([[signer_A], [signer_B]] ! i)\<rparr>"
    by blast
  have l2: "length (instructions tx') = 2" using l by (simp add: two_instr_tx_def)
  have s0: "signatures (instructions tx' ! 0) = [10 # ?ctx]"
    using s by (simp add: two_instr_tx_def signer_A_def)
  have s1: "signatures (instructions tx' ! 1) = [11 # ?ctx]"
    using s by (simp add: two_instr_tx_def signer_B_def)
  have sg: "map signatures (instructions tx') = [[10 # ?ctx], [11 # ?ctx]]"
    using l2 s0 s1 by (intro nth_equalityI) (auto simp: less_Suc_eq numeral_2_eq_2)
  have e: "ClientTransaction_signWith id_digest two_instr_tx [[signer_A]] = Inl NeedSameNumberOfSigners"
    using transaction_hash_and_signWith [of id_digest two_instr_tx "[]" "[[signer_A]]" ?ctx] h
    by (simp add: two_instr_tx_def)
  show ?thesis
    using m h e by (simp add: r sg)
qed

section \<open>Properties of the counter allocation\<close>

lemma foldl_append_concat: "foldl (@) xs xss = xs @ concat xss"
  by (induction xss arbitrary: xs) simp_all

lemma reduce_concat_nonempty: "signers \<noteq> [] \<Longrightarrow> reduce_concat signers = Inr (concat signers)"
  by (cases signers) (simp_all add: reduce_concat_def foldl_append_concat)

lemma findIndex_ge: "- 1 \<le> findIndex P xs"
  by (induction xs) (auto simp: Let_def)

lemma findIndex_nat:
  "findIndex P xs = int i \<longleftrightarrow> i < length xs \<and> P (xs ! i) \<and> (\<forall>j<i. \<not> P (xs ! j))"
proof (induction xs arbitrary: i)
  case Nil
  then show ?case by simp
next
  case (Cons x xs)
  show ?case
  proof (cases "P x")
    case True
    then show ?thesis by (cases i) auto
  next
    case False
    show ?thesis
    proof (cases i)
      case 0
      then show ?thesis using False findIndex_ge [of P xs] by (auto simp: Let_def)
    next
      case (Suc k)
      have "findIndex P (x # xs) = int (Suc k) \<longleftrightarrow> findIndex P xs = int k"
        using False findIndex_ge [of P xs] by (auto simp: Let_def)
      also have "\<dots> \<longleftrightarrow> k < length xs \<and> P (xs ! k) \<and> (\<forall>j<k. \<not> P (xs ! j))"
        by (rule Cons.IH)
      also have "\<dots> \<longleftrightarrow> Suc k < length (x # xs) \<and> P ((x # xs) ! Suc k) \<and> (\<forall>j<Suc k. \<not> P ((x # xs) ! j))"
        using False by (auto simp: less_Suc_eq_0_disj)
      finally show ?thesis using Suc by simp
    qed
  qed
qed

lemma filter_unique_set:
  "set (filter_unique xs) = {xs ! i | i. first_at xs i}"
proof -
  have "set (filter_unique xs) =
        fst ` {(us, i). (us, i) \<in> set (zip xs [0..<length xs])
                 \<and> findIndex (\<lambda>usf. id_toString usf = id_toString us) xs = int i}"
    by (auto simp: filter_unique_def)
  also have "\<dots> = {xs ! i | i. first_at xs i}"
    by (auto simp: set_zip findIndex_nat first_at_def image_iff) force
  finally show ?thesis .
qed

lemma filter_unique_subset: "set (filter_unique xs) \<subseteq> set xs"
  by (auto simp: filter_unique_set first_at_def)

lemma filter_unique_strings:
  "set (map id_toString (filter_unique xs)) = set (map id_toString xs)"
proof
  show "set (map id_toString (filter_unique xs)) \<subseteq> set (map id_toString xs)"
    using filter_unique_subset [of xs] by auto
next
  show "set (map id_toString xs) \<subseteq> set (map id_toString (filter_unique xs))"
  proof
    fix k assume "k \<in> set (map id_toString xs)"
    then obtain i where i: "i < length xs" "id_toString (xs ! i) = k"
      by (auto simp: in_set_conv_nth)
    define m where "m = (LEAST j. j < length xs \<and> id_toString (xs ! j) = k)"
    have m: "m < length xs \<and> id_toString (xs ! m) = k"
      unfolding m_def by (rule LeastI [of _ i]) (use i in simp)
    have least: "\<And>j. j < m \<Longrightarrow> \<not> (j < length xs \<and> id_toString (xs ! j) = k)"
      unfolding m_def by (rule not_less_Least)
    have "first_at xs m"
      unfolding first_at_def using m least by (metis less_trans)
    then have "xs ! m \<in> set (filter_unique xs)"
      by (auto simp: filter_unique_set)
    then show "k \<in> set (map id_toString (filter_unique xs))"
      using m by force
  qed
qed

lemma filter_unique_distinct: "distinct (map id_toString (filter_unique xs))"
proof -
  let ?Q = "\<lambda>(us, i). findIndex (\<lambda>usf. id_toString usf = id_toString us) xs = int i"
  let ?ys = "filter ?Q (zip xs [0..<length xs])"
  have d: "distinct ?ys"
    by (simp add: distinct_zipI2)
  have inj: "inj_on (id_toString \<circ> fst) (set ?ys)"
  proof (rule inj_onI)
    fix a b assume a: "a \<in> set ?ys" and b: "b \<in> set ?ys"
      and e: "(id_toString \<circ> fst) a = (id_toString \<circ> fst) b"
    obtain u i where ai: "a = (u, i)" by (cases a)
    obtain v j where bj: "b = (v, j)" by (cases b)
    from a ai have u: "i < length xs" "u = xs ! i"
      "\<forall>l<i. id_toString (xs ! l) \<noteq> id_toString (xs ! i)"
      by (auto simp: set_zip findIndex_nat)
    from b bj have v: "j < length xs" "v = xs ! j"
      "\<forall>l<j. id_toString (xs ! l) \<noteq> id_toString (xs ! j)"
      by (auto simp: set_zip findIndex_nat)
    from e ai bj u v have s: "id_toString (xs ! i) = id_toString (xs ! j)" by simp
    have "i = j"
    proof (rule ccontr)
      assume "i \<noteq> j"
      then consider "i < j" | "j < i" by linarith
      then show False using s u(3) v(3) by cases auto
    qed
    then show "a = b" using ai bj u v by simp
  qed
  have "distinct (map (id_toString \<circ> fst) ?ys)"
    using d inj by (simp add: distinct_map)
  then show ?thesis by (simp add: filter_unique_def)
qed

lemma uses_append: "uses (served @ ss) k = uses served k + uses ss k"
  by (simp add: uses_def)

lemma uses_single: "uses [s] k = (if id_toString s = k then 1 else 0)"
  by (simp add: uses_def)

lemma store_counters_fold:
  assumes "\<forall>j<length xs. array_get cs (k + j) = Some (fetched (id_toString (xs ! j)))"
  shows "fold (\<lambda>(us, i) signerCounters. signerCounters(id_toString us := array_get cs i))
              (zip xs [k..<k + length xs]) m0
         = (\<lambda>key. if key \<in> id_toString ` set xs then Some (fetched key) else m0 key)"
  using assms
proof (induction xs arbitrary: k m0)
  case Nil
  then show ?case by simp
next
  case (Cons x xs)
  have "[k..<k + length (x # xs)] = k # [Suc k..<Suc k + length xs]"
    by (subst upt_conv_Cons) (simp_all del: upt_Suc)
  then have z: "zip (x # xs) [k..<k + length (x # xs)] = (x, k) # zip xs [Suc k..<Suc k + length xs]"
    by (simp del: upt_Suc)
  have h: "\<forall>j<length xs. array_get cs (Suc k + j) = Some (fetched (id_toString (xs ! j)))"
    using Cons.prems by (metis Suc_less_eq add_Suc add_Suc_right length_Cons nth_Cons_Suc)
  have x: "array_get cs k = Some (fetched (id_toString x))"
    using Cons.prems by (metis add.right_neutral length_Cons nth_Cons_0 zero_less_Suc)
  let ?f = "\<lambda>(us, i) signerCounters. signerCounters(id_toString us := array_get cs i)"
  have "fold ?f (zip (x # xs) [k..<k + length (x # xs)]) m0
          = fold ?f (zip xs [Suc k..<Suc k + length xs]) (m0(id_toString x := array_get cs k))"
    unfolding z by simp
  also have "\<dots> = (\<lambda>key. if key \<in> id_toString ` set xs then Some (fetched key)
                          else (m0(id_toString x := array_get cs k)) key)"
    by (rule Cons.IH [OF h])
  also have "\<dots> = (\<lambda>key. if key \<in> id_toString ` set (x # xs) then Some (fetched key) else m0 key)"
    by (rule ext) (auto simp: x)
  finally show ?case .
qed

lemma store_counters_table:
  "store_counters us (map (\<lambda>u. fetched (id_toString u)) us)
     = table_after fetched (id_toString ` set us) []"
proof -
  have "\<forall>j<length us. array_get (map (\<lambda>u. fetched (id_toString u)) us) (0 + j)
          = Some (fetched (id_toString (us ! j)))"
    by (simp add: array_get_def)
  from store_counters_fold [OF this, of "\<lambda>key. None"]
  have "store_counters us (map (\<lambda>u. fetched (id_toString u)) us)
          = (\<lambda>key. if key \<in> id_toString ` set us then Some (fetched key) else None)"
    by (simp add: store_counters_def)
  also have "\<dots> = table_after fetched (id_toString ` set us) []"
    by (rule ext) (simp add: table_after_def uses_def)
  finally show ?thesis .
qed

lemma table_after_step:
  assumes "id_toString s \<in> S"
  shows "(table_after fetched S served)
           (id_toString s := Some (fetched (id_toString s) + word_of_nat (uses served (id_toString s)) + 1))
         = table_after fetched S (served @ [s])"
  using assms by (rule_tac ext) (simp add: table_after_def uses_append uses_single)

lemma assign_signers_result:
  assumes "id_toString ` set ss \<subseteq> S"
  shows "assign_signers ss instr (table_after fetched S served) =
           Inr (instr\<lparr>signerIdentities := signerIdentities instr @ map id_toWrapper ss,
                       signerCounter := signerCounter instr @ counters_for fetched served ss\<rparr>,
                table_after fetched S (served @ ss))"
  using assms
proof (induction ss arbitrary: instr served)
  case Nil
  then show ?case by simp
next
  case (Cons s ss)
  have s: "id_toString s \<in> S" and ss: "id_toString ` set ss \<subseteq> S" using Cons.prems by auto
  have l: "table_after fetched S served (id_toString s)
             = Some (fetched (id_toString s) + word_of_nat (uses served (id_toString s)))"
    using s by (simp add: table_after_def)
  show ?case
    by (simp add: l table_after_step [OF s] Cons.IH [OF ss])
qed

lemma assign_counters_result:
  assumes "length signers = length instrs" and "id_toString ` set (concat signers) \<subseteq> S"
  shows "assign_counters signers instrs (table_after fetched S served) =
           Inr (assigned fetched served signers instrs)"
  using assms
proof (induction signers instrs arbitrary: served rule: list_induct2')
  case 1
  then show ?case by simp
next
  case (2 x xs)
  then show ?case by simp
next
  case (3 y ys)
  then show ?case by simp
next
  case (4 g gs instr rest)
  have g: "id_toString ` set g \<subseteq> S" and gs: "id_toString ` set (concat gs) \<subseteq> S"
    using 4(3) by auto
  have l: "length gs = length rest" using 4(2) by simp
  show ?case
    by (simp add: assign_signers_result [OF g] 4(1) [OF l gs])
qed

lemma length_assigned:
  "length signers = length instrs \<Longrightarrow> length (assigned fetched served signers instrs) = length instrs"
  by (induction signers instrs arbitrary: served rule: list_induct2') simp_all

lemma counters_for_nth:
  "counters_for fetched served ss =
     map (\<lambda>j. fetched (id_toString (ss ! j))
                + word_of_nat (uses (served @ take j ss) (id_toString (ss ! j))))
         [0..<length ss]"
proof (induction ss arbitrary: served)
  case Nil
  then show ?case by simp
next
  case (Cons s ss)
  have "[0..<length (s # ss)] = 0 # map Suc [0..<length ss]"
    by (subst upt_conv_Cons) (simp_all add: map_Suc_upt del: upt_Suc)
  then show ?case
    by (simp add: Cons.IH comp_def del: upt_Suc)
qed

lemma assigned_nth:
  assumes "length signers = length instrs" and "i < length instrs"
  shows "assigned fetched served signers instrs ! i =
           (instrs ! i)
             \<lparr>signerIdentities := signerIdentities (instrs ! i) @ map id_toWrapper (signers ! i),
              signerCounter := signerCounter (instrs ! i)
                 @ counters_for fetched (served @ concat (take i signers)) (signers ! i)\<rparr>"
  using assms
proof (induction signers instrs arbitrary: served i rule: list_induct2')
  case 1
  then show ?case by simp
next
  case (2 x xs)
  then show ?case by simp
next
  case (3 y ys)
  then show ?case by simp
next
  case (4 g gs instr rest)
  show ?case
  proof (cases i)
    case 0
    then show ?thesis by simp
  next
    case (Suc k)
    have l: "length gs = length rest" using 4(2) by simp
    have k: "k < length rest" using 4(3) Suc by simp
    show ?thesis
      using 4(1) [OF l k, of "served @ g"] Suc by simp
  qed
qed

lemma updateCounters_result:
  assumes "instructions tx \<noteq> []" and "length signers = length (instructions tx)"
    and "\<And>us. rpc us 1 = Inr (map (\<lambda>u. fetched (id_toString u)) us)"
  shows "updateCounters rpc tx signers =
           ([(filter_unique (concat signers), 1)],
            Inr (tx\<lparr>instructions := assigned fetched [] signers (instructions tx)\<rparr>))"
proof -
  have ne: "signers \<noteq> []" using assms(1,2) by auto
  have sub: "id_toString ` set (concat signers) \<subseteq> id_toString ` set (filter_unique (concat signers))"
    using filter_unique_strings [of "concat signers"] by simp
  show ?thesis
    using assms(1,2)
    by (simp add: updateCounters_def reduce_concat_nonempty [OF ne] Let_def assms(3)
        store_counters_table assign_counters_result [OF assms(2) sub] del: One_nat_def)
qed

text \<open>
  Claim C8, as the code has it. A transaction without instructions is returned as it is,
  and no request is sent. For a transaction with at least one instruction and one signer
  list per instruction, and a counter service that answers a request with one counter per
  identity (\<open>fetched\<close> of its string), \<open>updateCounters\<close> sends exactly one request, for
  identities with pairwise different strings that are the identities of the signer lists;
  it leaves the transaction with as many instructions, where instruction \<open>i\<close> has got,
  after the identities and counters it carried, the wrappers of its signers in the order
  of its signer list and, for its signer \<open>j\<close>, the counter fetched for that identity plus
  the number of earlier occurrences of the identity in the signer lists (so the second use
  of an identity gets the fetched counter plus one). An instruction that carried no
  identities and no counters has exactly these: its identity list and its counter list
  correspond position-wise to its signer list. Counters are 64-bit \<open>Long\<close> values.
\<close>

theorem updateCounters_assigns:
  "(instructions tx = [] \<longrightarrow> updateCounters rpc tx signers = ([], Inr tx))
   \<and> (instructions tx \<noteq> [] \<and> length signers = length (instructions tx)
        \<and> (\<forall>us. rpc us 1 = Inr (map (\<lambda>u. fetched (id_toString u)) us))
      \<longrightarrow> (\<exists>us tx'. updateCounters rpc tx signers = ([(us, 1)], Inr tx')
            \<and> distinct (map id_toString us)
            \<and> set (map id_toString us) = set (map id_toString (concat signers))
            \<and> set us \<subseteq> set (concat signers)
            \<and> length (instructions tx') = length (instructions tx)
            \<and> (\<forall>i < length (instructions tx).
                  instructions tx' ! i =
                    (instructions tx ! i)
                      \<lparr>signerIdentities :=
                         signerIdentities (instructions tx ! i) @ map id_toWrapper (signers ! i),
                       signerCounter :=
                         signerCounter (instructions tx ! i)
                         @ map (\<lambda>j. fetched (id_toString (signers ! i ! j))
                                      + word_of_nat (earlier_uses signers i j))
                               [0..<length (signers ! i)]\<rparr>)
            \<and> (\<forall>i < length (instructions tx).
                  signerIdentities (instructions tx ! i) = []
                    \<and> signerCounter (instructions tx ! i) = []
                  \<longrightarrow> length (signerIdentities (instructions tx' ! i)) = length (signers ! i)
                    \<and> length (signerCounter (instructions tx' ! i)) = length (signers ! i)
                    \<and> (\<forall>j < length (signers ! i).
                          signerIdentities (instructions tx' ! i) ! j = id_toWrapper (signers ! i ! j)
                        \<and> signerCounter (instructions tx' ! i) ! j
                            = fetched (id_toString (signers ! i ! j))
                              + word_of_nat (earlier_uses signers i j)))))"
proof (intro conjI impI)
  assume "instructions tx = []"
  then show "updateCounters rpc tx signers = ([], Inr tx)"
    by (simp add: updateCounters_def)
next
  assume a: "instructions tx \<noteq> [] \<and> length signers = length (instructions tx)
        \<and> (\<forall>us. rpc us 1 = Inr (map (\<lambda>u. fetched (id_toString u)) us))"
  let ?us = "filter_unique (concat signers)"
  let ?tx' = "tx\<lparr>instructions := assigned fetched [] signers (instructions tx)\<rparr>"
  have ne: "instructions tx \<noteq> []" and len: "length signers = length (instructions tx)"
    using a by simp_all
  have r: "updateCounters rpc tx signers = ([(?us, 1)], Inr ?tx')"
    using a by (intro updateCounters_result [OF ne len]) simp
  have n: "\<forall>i < length (instructions tx).
            instructions ?tx' ! i =
              (instructions tx ! i)
                \<lparr>signerIdentities :=
                   signerIdentities (instructions tx ! i) @ map id_toWrapper (signers ! i),
                 signerCounter :=
                   signerCounter (instructions tx ! i)
                   @ map (\<lambda>j. fetched (id_toString (signers ! i ! j))
                                + word_of_nat (earlier_uses signers i j))
                         [0..<length (signers ! i)]\<rparr>"
    by (simp add: assigned_nth [OF len] counters_for_nth earlier_uses_def)
  have f: "\<forall>i < length (instructions tx).
            signerIdentities (instructions tx ! i) = []
              \<and> signerCounter (instructions tx ! i) = []
            \<longrightarrow> length (signerIdentities (instructions ?tx' ! i)) = length (signers ! i)
              \<and> length (signerCounter (instructions ?tx' ! i)) = length (signers ! i)
              \<and> (\<forall>j < length (signers ! i).
                    signerIdentities (instructions ?tx' ! i) ! j = id_toWrapper (signers ! i ! j)
                  \<and> signerCounter (instructions ?tx' ! i) ! j
                      = fetched (id_toString (signers ! i ! j))
                        + word_of_nat (earlier_uses signers i j))"
    by (simp add: assigned_nth [OF len] counters_for_nth earlier_uses_def del: upt_Suc)
  have l: "length (instructions ?tx') = length (instructions tx)"
    by (simp add: length_assigned [OF len])
  show "\<exists>us tx'. updateCounters rpc tx signers = ([(us, 1)], Inr tx')
            \<and> distinct (map id_toString us)
            \<and> set (map id_toString us) = set (map id_toString (concat signers))
            \<and> set us \<subseteq> set (concat signers)
            \<and> length (instructions tx') = length (instructions tx)
            \<and> (\<forall>i < length (instructions tx).
                  instructions tx' ! i =
                    (instructions tx ! i)
                      \<lparr>signerIdentities :=
                         signerIdentities (instructions tx ! i) @ map id_toWrapper (signers ! i),
                       signerCounter :=
                         signerCounter (instructions tx ! i)
                         @ map (\<lambda>j. fetched (id_toString (signers ! i ! j))
                                      + word_of_nat (earlier_uses signers i j))
                               [0..<length (signers ! i)]\<rparr>)
            \<and> (\<forall>i < length (instructions tx).
                  signerIdentities (instructions tx ! i) = []
                    \<and> signerCounter (instructions tx ! i) = []
                  \<longrightarrow> length (signerIdentities (instructions tx' ! i)) = length (signers ! i)
                    \<and> length (signerCounter (instructions tx' ! i)) = length (signers ! i)
                    \<and> (\<forall>j < length (signers ! i).
                          signerIdentities (instructions tx' ! i) ! j = id_toWrapper (signers ! i ! j)
                        \<and> signerCounter (instructions tx' ! i) ! j
                            = fetched (id_toString (signers ! i ! j))
                              + word_of_nat (earlier_uses signers i j)))"
    using r n f l filter_unique_distinct [of "concat signers"]
      filter_unique_strings [of "concat signers"] filter_unique_subset [of "concat signers"]
    by blast
qed

text \<open>
  Three instructions signed by \<open>A\<close>, \<open>A\<close> and \<open>B\<close>, with the counters 5 for \<open>A\<close> and 9
  for \<open>B\<close> fetched: one request is sent, the two instructions signed by \<open>A\<close> get the
  counters 5 and 6, the one signed by \<open>B\<close> gets 9. For the transaction without
  instructions no request is sent.
\<close>

theorem updateCounters_assigns_witness:
  "instructions three_instr_tx \<noteq> []
   \<and> length [[identity_A], [identity_A], [identity_B]] = length (instructions three_instr_tx)
   \<and> length (fst (updateCounters toy_counters three_instr_tx
                     [[identity_A], [identity_A], [identity_B]])) = 1
   \<and> map_sum id (\<lambda>tx'. map signerCounter (instructions tx'))
        (snd (updateCounters toy_counters three_instr_tx [[identity_A], [identity_A], [identity_B]]))
       = Inr [[5], [6], [9]]
   \<and> map_sum id (\<lambda>tx'. map signerIdentities (instructions tx'))
        (snd (updateCounters toy_counters three_instr_tx [[identity_A], [identity_A], [identity_B]]))
       = Inr [[wrapper_A], [wrapper_A], [wrapper_B]]
   \<and> instructions empty_tx = []
   \<and> updateCounters toy_counters empty_tx [] = ([], Inr empty_tx)"
proof -
  let ?signers = "[[identity_A], [identity_A], [identity_B]]"
  have a: "instructions three_instr_tx \<noteq> []" by (simp add: three_instr_tx_def)
  have b: "length ?signers = length (instructions three_instr_tx)" by (simp add: three_instr_tx_def)
  have c: "\<forall>us. toy_counters us 1 = Inr (map (\<lambda>u. toy_fetched (id_toString u)) us)"
    by (simp add: toy_counters_def)
  have e: "instructions empty_tx = []" by (simp add: empty_tx_def)
  have z: "updateCounters toy_counters empty_tx [] = ([], Inr empty_tx)"
    using updateCounters_assigns [of empty_tx toy_counters "[]" toy_fetched] e by simp
  from updateCounters_assigns [of three_instr_tx toy_counters ?signers toy_fetched] a b c
  obtain us tx' where
    r: "updateCounters toy_counters three_instr_tx ?signers = ([(us, 1)], Inr tx')"
    and l: "length (instructions tx') = length (instructions three_instr_tx)"
    and n: "\<forall>i < length (instructions three_instr_tx).
            instructions tx' ! i =
              (instructions three_instr_tx ! i)
                \<lparr>signerIdentities :=
                   signerIdentities (instructions three_instr_tx ! i) @ map id_toWrapper (?signers ! i),
                 signerCounter :=
                   signerCounter (instructions three_instr_tx ! i)
                   @ map (\<lambda>j. toy_fetched (id_toString (?signers ! i ! j))
                                + word_of_nat (earlier_uses ?signers i j))
                         [0..<length (?signers ! i)]\<rparr>"
    by blast
  have l3: "length (instructions tx') = 3" using l by (simp add: three_instr_tx_def)
  have i0: "instructions tx' ! 0 = spawn_instr [] [5] [wrapper_A]"
    using n
    by (simp add: three_instr_tx_def spawn_instr_def earlier_uses_def uses_def toy_fetched_def
        identity_A_def)
  have i1: "instructions tx' ! 1 = spawn_instr [] [6] [wrapper_A]"
    using n
    by (simp add: three_instr_tx_def spawn_instr_def earlier_uses_def uses_def toy_fetched_def
        identity_A_def)
  have i2: "instructions tx' ! 2 = spawn_instr [] [9] [wrapper_B]"
    using n
    by (simp add: three_instr_tx_def spawn_instr_def earlier_uses_def uses_def toy_fetched_def
        identity_A_def identity_B_def)
  have all: "instructions tx' = [spawn_instr [] [5] [wrapper_A], spawn_instr [] [6] [wrapper_A],
                                 spawn_instr [] [9] [wrapper_B]]"
    using l3 i0 i1 i2
    by (intro nth_equalityI) (auto simp: less_Suc_eq numeral_3_eq_3 numeral_2_eq_2)
  show ?thesis
    using a b e z by (simp add: r all spawn_instr_def)
qed

text \<open>
  Claim C8 as stated fails. The transaction without instructions has as many signer lists
  as instructions, namely none, and no counter request is sent for it. The instruction of
  \<open>prefilled_tx\<close> already carries the identity \<open>B\<close> and the counter 7: signed by the one
  signer \<open>A\<close>, it ends with two identities and two counters for a signer list of one.
\<close>

theorem updateCounters_assigns_counterexample:
  "length ([] :: Identity list list) = length (instructions empty_tx)
   \<and> updateCounters toy_counters empty_tx [] = ([], Inr empty_tx)
   \<and> length [[identity_A]] = length (instructions prefilled_tx)
   \<and> snd (updateCounters toy_counters prefilled_tx [[identity_A]])
       = Inr \<lparr>instructions = [spawn_instr [] [7, 5] [wrapper_B, wrapper_A]]\<rparr>
   \<and> signerIdentities (spawn_instr [] [7, 5] [wrapper_B, wrapper_A]) \<noteq> [id_toWrapper identity_A]
   \<and> signerCounter (spawn_instr [] [7, 5] [wrapper_B, wrapper_A]) \<noteq> [5]"
proof -
  have a: "instructions prefilled_tx \<noteq> []"
    and b: "length [[identity_A]] = length (instructions prefilled_tx)"
    by (simp_all add: prefilled_tx_def)
  have c: "\<And>us. toy_counters us 1 = Inr (map (\<lambda>u. toy_fetched (id_toString u)) us)"
    by (simp add: toy_counters_def)
  have r: "snd (updateCounters toy_counters prefilled_tx [[identity_A]])
             = Inr \<lparr>instructions = [spawn_instr [] [7, 5] [wrapper_B, wrapper_A]]\<rparr>"
    unfolding updateCounters_result [of prefilled_tx "[[identity_A]]" toy_counters toy_fetched, OF a b c]
    by (simp add: prefilled_tx_def spawn_instr_def uses_def toy_fetched_def identity_A_def)
  have z: "updateCounters toy_counters empty_tx [] = ([], Inr empty_tx)"
    by (simp add: updateCounters_def empty_tx_def)
  have d: "signerIdentities (spawn_instr [] [7, 5] [wrapper_B, wrapper_A]) \<noteq> [id_toWrapper identity_A]"
    and d': "signerCounter (spawn_instr [] [7, 5] [wrapper_B, wrapper_A]) \<noteq> [5]"
    by (simp_all add: spawn_instr_def)
  have e: "length ([] :: Identity list list) = length (instructions empty_tx)"
    by (simp add: empty_tx_def)
  show ?thesis
    using b z d d' e r by simp
qed

section \<open>Properties of \<open>updateCountersAndSign\<close>\<close>

lemma counter_bytes_5_6:
  "Long_toBytesLE 5 = [5, 0, 0, 0, 0, 0, 0, 0]" "Long_toBytesLE 6 = [6, 0, 0, 0, 0, 0, 0, 0]"
  by (simp_all add: Long_toBytesLE_def upt_rec)

lemma extend_single: "0 < n \<Longrightarrow> extend_signers n [grp] = replicate n grp"
  by (cases n) (simp_all add: extend_signers_def replicate_append_same)

lemma extend_other: "length signers \<noteq> 1 \<Longrightarrow> extend_signers n signers = signers"
  by (simp add: extend_signers_def)

lemma Instruction_type_assigned:
  "Instruction_type (instr\<lparr>signerIdentities := ids, signerCounter := cs\<rparr>) = Instruction_type instr"
  by (simp add: Instruction_type_def)

lemma hashes_exist:
  assumes "\<forall>instr \<in> set instrs. Instruction_type instr \<noteq> Inl InstructionWithoutType"
  shows "\<exists>hs. map (Instruction_hash sha256) instrs = map Inr hs"
  using assms
proof (induction instrs)
  case Nil
  then show ?case by simp
next
  case (Cons instr instrs)
  then obtain hs where hs: "map (Instruction_hash sha256) instrs = map Inr hs" by auto
  from Cons.prems obtain t where "Instruction_type instr = Inr t"
    by (auto simp: Instruction_type_def split: if_splits)
  then obtain h where "Instruction_hash sha256 instr = Inr h"
    using Instruction_hash_typed by blast
  then have "map (Instruction_hash sha256) (instr # instrs) = map Inr (h # hs)"
    using hs by simp
  then show ?case by blast
qed

lemma assigned_typed:
  assumes "length signers = length instrs"
    and "\<forall>instr \<in> set instrs. Instruction_type instr \<noteq> Inl InstructionWithoutType"
  shows "\<forall>instr \<in> set (assigned fetched served signers instrs).
           Instruction_type instr \<noteq> Inl InstructionWithoutType"
proof
  fix instr assume "instr \<in> set (assigned fetched served signers instrs)"
  then obtain i where i: "i < length instrs" "instr = assigned fetched served signers instrs ! i"
    by (auto simp: in_set_conv_nth length_assigned [OF assms(1)])
  then have "Instruction_type instr = Instruction_type (instrs ! i)"
    by (simp add: assigned_nth [OF assms(1)] Instruction_type_assigned)
  then show "Instruction_type instr \<noteq> Inl InstructionWithoutType"
    using assms(2) i(1) by simp
qed

lemma hash_instructions_signatures:
  "hash_instructions sha256 (map (\<lambda>(instr, ss). instr\<lparr>signatures := f ss\<rparr>) (zip instrs sss)) h
     = hash_instructions sha256 (take (length sss) instrs) h"
proof (induction instrs arbitrary: sss h)
  case Nil
  then show ?case by simp
next
  case (Cons instr instrs)
  then show ?case
    by (cases sss) (simp_all add: Instruction_hash_signatures split: sum.splits)
qed

text \<open>
  Claim C10. With exactly one signer group, more than one instruction, every instruction
  with a type, and a counter service that answers one counter per identity,
  \<open>updateCountersAndSign\<close> succeeds after one counter request: the transaction keeps its
  number of instructions, every instruction gets the wrappers of the one group's signers
  after the identities it had, and its signatures are those of the group's signers over the
  hash of the resulting transaction. With any other number of groups that is not the
  number of instructions, the call is rejected with 'length of signers and instructions do
  not match' and no request is sent.
\<close>

theorem updateCountersAndSign_single_group:
  assumes "1 < length (instructions tx)"
    and "\<forall>instr \<in> set (instructions tx). Instruction_type instr \<noteq> Inl InstructionWithoutType"
    and "\<forall>us. rpc us 1 = Inr (map (\<lambda>u. fetched (id_toString u)) us)"
  shows "(\<exists>requests tx' ctxHash.
            updateCountersAndSign rpc sha256 tx [grp] = (requests, Inr tx')
          \<and> length requests = 1
          \<and> ClientTransaction_hash sha256 tx' = Inr ctxHash
          \<and> length (instructions tx') = length (instructions tx)
          \<and> (\<forall>i < length (instructions tx).
                instructions tx' ! i =
                  (instructions tx ! i)
                    \<lparr>signerIdentities :=
                       signerIdentities (instructions tx ! i)
                       @ map (\<lambda>s. id_toWrapper (signer_identity s)) grp,
                     signerCounter :=
                       signerCounter (instructions tx ! i)
                       @ map (\<lambda>j. fetched (id_toString (signer_identity (grp ! j)))
                                    + word_of_nat
                                        (earlier_uses
                                           (replicate (length (instructions tx))
                                              (map signer_identity grp)) i j))
                             [0..<length grp],
                     signatures := map (\<lambda>s. signer_sign s ctxHash) grp\<rparr>))
       \<and> (length signers \<noteq> 1 \<and> length signers \<noteq> length (instructions tx)
            \<longrightarrow> updateCountersAndSign rpc sha256 tx signers = ([], Inl LengthsDoNotMatch))"
proof
  let ?n = "length (instructions tx)"
  let ?ids = "replicate ?n (map signer_identity grp)"
  let ?mid = "tx\<lparr>instructions := assigned fetched [] ?ids (instructions tx)\<rparr>"
  have n0: "0 < ?n" and ne: "instructions tx \<noteq> []" using assms(1) by auto
  have ex: "extend_signers ?n [grp] = replicate ?n grp" by (rule extend_single [OF n0])
  have len: "length ?ids = ?n" by simp
  have uc: "updateCounters rpc tx ?ids = ([(filter_unique (concat ?ids), 1)], Inr ?mid)"
    using assms(3) by (intro updateCounters_result [OF ne len]) simp
  have typed: "\<forall>instr \<in> set (instructions ?mid). Instruction_type instr \<noteq> Inl InstructionWithoutType"
    using assigned_typed [OF len assms(2)] by simp
  from hashes_exist [OF typed] obtain hs where
    hs: "map (Instruction_hash sha256) (instructions ?mid) = map Inr hs" by blast
  define ctxHash where "ctxHash = sha256 (concat hs)"
  have ch: "ClientTransaction_hash sha256 ?mid = Inr ctxHash"
    unfolding ctxHash_def by (rule ClientTransaction_hash_concat [OF hs])
  have lm: "length (replicate ?n grp) = length (instructions ?mid)"
    by (simp add: length_assigned [OF len])
  let ?tx' = "?mid\<lparr>instructions :=
                     map (\<lambda>(instr, ss). instr\<lparr>signatures := map (\<lambda>s. signer_sign s ctxHash) ss\<rparr>)
                         (zip (instructions ?mid) (replicate ?n grp))\<rparr>"
  have sw: "ClientTransaction_signWith sha256 ?mid (replicate ?n grp) = Inr ?tx'"
    by (rule ClientTransaction_signWith_result [OF ch lm])
  have r: "updateCountersAndSign rpc sha256 tx [grp] = ([(filter_unique (concat ?ids), 1)], Inr ?tx')"
    by (simp add: updateCountersAndSign_def ex uc sw Let_def)
  have h': "ClientTransaction_hash sha256 ?tx' = Inr ctxHash"
    using ch lm
    by (simp add: ClientTransaction_hash_def hash_instructions_signatures)
  have l': "length (instructions ?tx') = ?n"
    by (simp add: length_assigned [OF len])
  have each: "\<forall>i < ?n.
                instructions ?tx' ! i =
                  (instructions tx ! i)
                    \<lparr>signerIdentities :=
                       signerIdentities (instructions tx ! i)
                       @ map (\<lambda>s. id_toWrapper (signer_identity s)) grp,
                     signerCounter :=
                       signerCounter (instructions tx ! i)
                       @ map (\<lambda>j. fetched (id_toString (signer_identity (grp ! j)))
                                    + word_of_nat (earlier_uses ?ids i j))
                             [0..<length grp],
                     signatures := map (\<lambda>s. signer_sign s ctxHash) grp\<rparr>"
    by (simp add: length_assigned [OF len] assigned_nth [OF len] counters_for_nth
        earlier_uses_def comp_def)
  show "\<exists>requests tx' ctxHash.
            updateCountersAndSign rpc sha256 tx [grp] = (requests, Inr tx')
          \<and> length requests = 1
          \<and> ClientTransaction_hash sha256 tx' = Inr ctxHash
          \<and> length (instructions tx') = length (instructions tx)
          \<and> (\<forall>i < length (instructions tx).
                instructions tx' ! i =
                  (instructions tx ! i)
                    \<lparr>signerIdentities :=
                       signerIdentities (instructions tx ! i)
                       @ map (\<lambda>s. id_toWrapper (signer_identity s)) grp,
                     signerCounter :=
                       signerCounter (instructions tx ! i)
                       @ map (\<lambda>j. fetched (id_toString (signer_identity (grp ! j)))
                                    + word_of_nat
                                        (earlier_uses
                                           (replicate (length (instructions tx))
                                              (map signer_identity grp)) i j))
                             [0..<length grp],
                     signatures := map (\<lambda>s. signer_sign s ctxHash) grp\<rparr>)"
    using r h' l' each by (intro exI [of _ "[(filter_unique (concat ?ids), 1)]"] exI [of _ ?tx']
        exI [of _ ctxHash]) simp
next
  show "length signers \<noteq> 1 \<and> length signers \<noteq> length (instructions tx)
            \<longrightarrow> updateCountersAndSign rpc sha256 tx signers = ([], Inl LengthsDoNotMatch)"
    using assms(1)
    by (auto simp: updateCountersAndSign_def extend_other updateCounters_def Let_def)
qed

text \<open>
  Two spawn instructions and the single group \<open>[A]\<close>, with the counter 5 fetched for
  \<open>A\<close>: both instructions get the identity of \<open>A\<close>, the counters 5 and 6, and the
  signature by \<open>A\<close> of the transaction hash; with three groups the call is rejected.
\<close>

theorem updateCountersAndSign_single_group_witness:
  "1 < length (instructions plain_tx)
   \<and> list_all (\<lambda>instr. Instruction_type instr \<noteq> Inl InstructionWithoutType) (instructions plain_tx)
   \<and> length (fst (updateCountersAndSign toy_counters id_digest plain_tx [[signer_A]])) = 1
   \<and> map_sum id instructions (snd (updateCountersAndSign toy_counters id_digest plain_tx [[signer_A]]))
       = Inr [(spawn_instr [] [5] [wrapper_A])
                \<lparr>signatures := [[10, 1, 0, 99, 5, 0, 0, 0, 0, 0, 0, 0, 1, 0, 0, 0, 0, 0, 0, 0, 170,
                                      1, 0, 99, 6, 0, 0, 0, 0, 0, 0, 0, 1, 0, 0, 0, 0, 0, 0, 0, 170]]\<rparr>,
              (spawn_instr [] [6] [wrapper_A])
                \<lparr>signatures := [[10, 1, 0, 99, 5, 0, 0, 0, 0, 0, 0, 0, 1, 0, 0, 0, 0, 0, 0, 0, 170,
                                      1, 0, 99, 6, 0, 0, 0, 0, 0, 0, 0, 1, 0, 0, 0, 0, 0, 0, 0, 170]]\<rparr>]
   \<and> updateCountersAndSign toy_counters id_digest plain_tx [[signer_A], [signer_A], [signer_A]]
       = ([], Inl LengthsDoNotMatch)"
proof -
  let ?ctx = "[1, 0, 99, 5, 0, 0, 0, 0, 0, 0, 0, 1, 0, 0, 0, 0, 0, 0, 0, 170,
               1, 0, 99, 6, 0, 0, 0, 0, 0, 0, 0, 1, 0, 0, 0, 0, 0, 0, 0, 170] :: buffer"
  have a: "1 < length (instructions plain_tx)" by (simp add: plain_tx_def)
  have b: "\<forall>instr \<in> set (instructions plain_tx). Instruction_type instr \<noteq> Inl InstructionWithoutType"
    by (simp add: plain_tx_def spawn_instr_type)
  have c: "\<forall>us. toy_counters us 1 = Inr (map (\<lambda>u. toy_fetched (id_toString u)) us)"
    by (simp add: toy_counters_def)
  note t = updateCountersAndSign_single_group [of plain_tx toy_counters toy_fetched id_digest
      "[signer_A]", OF a b c]
  from t [of "[]"] obtain requests tx' ctxHash where
    r: "updateCountersAndSign toy_counters id_digest plain_tx [[signer_A]] = (requests, Inr tx')"
    and q: "length requests = 1"
    and h: "ClientTransaction_hash id_digest tx' = Inr ctxHash"
    and l: "length (instructions tx') = length (instructions plain_tx)"
    and n: "\<forall>i < length (instructions plain_tx).
                instructions tx' ! i =
                  (instructions plain_tx ! i)
                    \<lparr>signerIdentities :=
                       signerIdentities (instructions plain_tx ! i)
                       @ map (\<lambda>s. id_toWrapper (signer_identity s)) [signer_A],
                     signerCounter :=
                       signerCounter (instructions plain_tx ! i)
                       @ map (\<lambda>j. toy_fetched (id_toString (signer_identity ([signer_A] ! j)))
                                    + word_of_nat
                                        (earlier_uses
                                           (replicate (length (instructions plain_tx))
                                              (map signer_identity [signer_A])) i j))
                             [0..<length [signer_A]],
                     signatures := map (\<lambda>s. signer_sign s ctxHash) [signer_A]\<rparr>"
    by blast
  have l2: "length (instructions tx') = 2" using l by (simp add: plain_tx_def)
  have rep: "replicate (length (instructions plain_tx)) (map signer_identity [signer_A])
               = [[identity_A], [identity_A]]"
    by (simp add: plain_tx_def signer_A_def numeral_2_eq_2)
  have i0: "instructions tx' ! 0 = (spawn_instr [] [5] [wrapper_A])\<lparr>signatures := [10 # ctxHash]\<rparr>"
    using n unfolding rep
    by (simp add: plain_tx_def spawn_instr_def earlier_uses_def uses_def toy_fetched_def
        identity_A_def signer_A_def)
  have i1: "instructions tx' ! 1 = (spawn_instr [] [6] [wrapper_A])\<lparr>signatures := [10 # ctxHash]\<rparr>"
    using n unfolding rep
    by (simp add: plain_tx_def spawn_instr_def earlier_uses_def uses_def toy_fetched_def
        identity_A_def signer_A_def)
  have all: "instructions tx' = [(spawn_instr [] [5] [wrapper_A])\<lparr>signatures := [10 # ctxHash]\<rparr>,
                                 (spawn_instr [] [6] [wrapper_A])\<lparr>signatures := [10 # ctxHash]\<rparr>]"
    using l2 i0 i1 by (intro nth_equalityI) (auto simp: less_Suc_eq numeral_2_eq_2)
  have "ClientTransaction_hash id_digest tx' = Inr ?ctx"
    by (simp add: ClientTransaction_hash_def all Instruction_hash_signatures spawn_instr_hash
        counter_bytes_5_6 identity_bytes_A_B id_digest_def hash_update_def createHash_def
        hash_digest_def)
  then have ctx: "ctxHash = ?ctx" using h by simp
  have e: "updateCountersAndSign toy_counters id_digest plain_tx [[signer_A], [signer_A], [signer_A]]
       = ([], Inl LengthsDoNotMatch)"
    using t [of "[[signer_A], [signer_A], [signer_A]]"] by (simp add: plain_tx_def)
  show ?thesis
    using a b q e by (simp add: r all ctx list_all_iff)
qed

section \<open>Properties of \<open>getProof\<close>\<close>

text \<open>
  Claim C9. \<open>getProof\<close> sends one request, for the key on the chain of the genesis
  block and with the current version. Whatever the reply, it returns the reply's proof as
  it is, and it rejects only with the rejection of the connection: the proof is not
  verified on the way (the call to \<open>verify\<close> is commented out in the source).
\<close>

theorem getProof_returns_reply:
  "(conn_send \<lparr>gp_id = sb_hash genesis, gp_key = key, gp_version = 1\<rparr> = Inr reply
      \<longrightarrow> getProof conn_send genesis key = Inr (reply_proof reply))
   \<and> (conn_send \<lparr>gp_id = sb_hash genesis, gp_key = key, gp_version = 1\<rparr> = Inl e
      \<longrightarrow> getProof conn_send genesis key = Inl e)"
  by (simp add: getProof_def currentVersion_def Let_def)

text \<open>
  The connection answers with a proof whose second link is signed by a replaced roster:
  \<open>verify\<close> returns an error on it for the genesis hash \<open>[10]\<close>, and \<open>getProof\<close>
  returns it unchanged.
\<close>

theorem getProof_returns_reply_witness:
  "toy_send \<lparr>gp_id = sb_hash toy_genesis, gp_key = [1], gp_version = 1\<rparr>
     = Inr \<lparr>reply_proof = stale_signer_proof\<rparr>
   \<and> Proof_verify toy_lib id_digest stale_signer_proof (sb_hash toy_genesis)
       = Inr (Some (InvalidForwardLinkSignature ''bad signature''))
   \<and> getProof toy_send toy_genesis [1] = Inr stale_signer_proof"
proof -
  have s: "toy_send \<lparr>gp_id = sb_hash toy_genesis, gp_key = [1], gp_version = 1\<rparr>
     = Inr \<lparr>reply_proof = stale_signer_proof\<rparr>"
    by (simp add: toy_send_def)
  have v: "Proof_verify toy_lib id_digest stale_signer_proof (sb_hash toy_genesis)
       = Inr (Some (InvalidForwardLinkSignature ''bad signature''))"
    by (simp add: Proof_verify_def stale_signer_proof_def toy_lib_def toy_latest_def
        toy_inclusion_def toy_genesis_def hashInterior_def hash_digest_def hash_update_def
        createHash_def id_digest_def)
  show ?thesis
    using getProof_returns_reply [of toy_send toy_genesis "[1]" "\<lparr>reply_proof = stale_signer_proof\<rparr>"]
      s v
    by simp
qed

end
